theory Spec2Isabelle
  imports Complex_Main
begin

text \<open>
  The integral sieve of Psi4, \<^verbatim>\<open>psi4/src/psi4/libmints/sieve.cc\<close>: the Schwarz bounds
  built by \<^verbatim>\<open>integrals\<close>, the exchange bounds built by \<^verbatim>\<open>csam_integrals\<close>, the
  significance lists, reverse maps and adjacency lists derived by \<^verbatim>\<open>set_sieve\<close>, and
  the test \<^verbatim>\<open>shell_significant_csam\<close>.
\<close>

section \<open>Double-precision values\<close>

text \<open>
  The sieve stores and compares C++ \<^verbatim>\<open>double\<close> values. The model keeps the special
  values of IEEE 754 (the two infinities and NaN), because division by a zero
  \<^verbatim>\<open>max_\<close> and comparisons against NaN decide what the sieve keeps. Finite values
  are real numbers: rounding of finite results, overflow of a finite result to an
  infinity and the sign of zero are not modelled (zero is the positive zero).
\<close>

datatype double = Fin real | PInf | NInf | NaN

text \<open>\<^verbatim>\<open>a < b\<close>: false as soon as one side is NaN.\<close>

fun dlt :: "double \<Rightarrow> double \<Rightarrow> bool" where
  "dlt (Fin a) (Fin b) = (a < b)"
| "dlt (Fin a) PInf = True"
| "dlt (Fin a) NInf = False"
| "dlt (Fin a) NaN = False"
| "dlt PInf b = False"
| "dlt NInf (Fin b) = True"
| "dlt NInf PInf = True"
| "dlt NInf NInf = False"
| "dlt NInf NaN = False"
| "dlt NaN b = False"

text \<open>\<^verbatim>\<open>a == b\<close>, \<^verbatim>\<open>a >= b\<close> and \<^verbatim>\<open>a <= b\<close>: all false on NaN.\<close>

definition deq :: "double \<Rightarrow> double \<Rightarrow> bool" where
  "deq a b = (a \<noteq> NaN \<and> b \<noteq> NaN \<and> a = b)"

definition dge :: "double \<Rightarrow> double \<Rightarrow> bool" where
  "dge a b = (a \<noteq> NaN \<and> b \<noteq> NaN \<and> \<not> dlt a b)"

definition dle :: "double \<Rightarrow> double \<Rightarrow> bool" where
  "dle a b = dge b a"

text \<open>\<^verbatim>\<open>std::max(a, b)\<close> is \<^verbatim>\<open>(a < b) ? b : a\<close>.\<close>

definition dmax :: "double \<Rightarrow> double \<Rightarrow> double" where
  "dmax a b = (if dlt a b then b else a)"

text \<open>\<^verbatim>\<open>std::abs\<close> and \<^verbatim>\<open>std::sqrt\<close>.\<close>

fun dabs :: "double \<Rightarrow> double" where
  "dabs (Fin a) = Fin \<bar>a\<bar>"
| "dabs PInf = PInf"
| "dabs NInf = PInf"
| "dabs NaN = NaN"

fun dsqrt :: "double \<Rightarrow> double" where
  "dsqrt (Fin a) = (if a < 0 then NaN else Fin (sqrt a))"
| "dsqrt PInf = PInf"
| "dsqrt NInf = NaN"
| "dsqrt NaN = NaN"

text \<open>The sign of a non-NaN value: \<open>-1\<close>, \<open>0\<close> or \<open>1\<close>.\<close>

fun dsgn :: "double \<Rightarrow> int" where
  "dsgn (Fin a) = (if a < 0 then -1 else if a = 0 then 0 else 1)"
| "dsgn PInf = 1"
| "dsgn NInf = -1"
| "dsgn NaN = 0"

definition signed_inf :: "int \<Rightarrow> double" where
  "signed_inf sg = (if sg < 0 then NInf else PInf)"

text \<open>\<^verbatim>\<open>a * b\<close>: an infinity times zero is NaN.\<close>

fun dmul :: "double \<Rightarrow> double \<Rightarrow> double" where
  "dmul NaN b = NaN"
| "dmul a NaN = NaN"
| "dmul (Fin a) (Fin b) = Fin (a * b)"
| "dmul a b = (if dsgn a = 0 \<or> dsgn b = 0 then NaN else signed_inf (dsgn a * dsgn b))"

text \<open>
  \<^verbatim>\<open>a / b\<close>: \<open>0 / 0\<close> and \<open>\<infinity> / \<infinity>\<close> are NaN, a nonzero value over zero is an
  infinity of the sign of the numerator, a finite value over an infinity is zero.
\<close>

fun ddiv :: "double \<Rightarrow> double \<Rightarrow> double" where
  "ddiv NaN b = NaN"
| "ddiv a NaN = NaN"
| "ddiv (Fin a) (Fin b) =
     (if b = 0 then (if a = 0 then NaN else signed_inf (dsgn (Fin a))) else Fin (a / b))"
| "ddiv (Fin a) b = Fin 0"
| "ddiv a (Fin b) = signed_inf (dsgn a * (if b < 0 then -1 else 1))"
| "ddiv a b = NaN"

section \<open>The sieve object\<close>

text \<open>
  The fields of \<^verbatim>\<open>ERISieve\<close> that \<^verbatim>\<open>sieve.cc\<close> reads or writes, named as in the source
  without the trailing underscore (\<^verbatim>\<open>max_\<close> is \<open>max_value\<close>, \<^verbatim>\<open>sieve_\<close> is
  \<open>sieve_cutoff\<close>). Indices and sizes are natural numbers: the products
  \<^verbatim>\<open>MU * nshell_ + NU\<close> are taken not to overflow \<^verbatim>\<open>int\<close>. The reverse maps hold
  \<^verbatim>\<open>long int\<close> values, with \<open>-1\<close> for an absent pair. The declaration of the class
  is in \<^verbatim>\<open>sieve.h\<close>; the types of the fields are those that their uses in
  \<^verbatim>\<open>sieve.cc\<close> show.
\<close>

record erisieve =
  nshell :: nat
  nbf :: nat
  do_csam :: bool
  do_qqr :: bool
  debug :: int
  sieve_cutoff :: double
  sieve2 :: double
  sieve_over_max :: double
  sieve2_over_max :: double
  max_value :: double
  function_pair_values :: "double list"
  shell_pair_values :: "double list"
  shell_pair_exchange_values :: "double list"
  function_sqrt :: "double list"
  shell_pairs :: "(nat \<times> nat) list"
  function_pairs :: "(nat \<times> nat) list"
  shell_pairs_reverse :: "int list"
  function_pairs_reverse :: "int list"
  shell_to_shell :: "nat list list"
  function_to_function :: "nat list list"

text \<open>\<^verbatim>\<open>std::vector::resize(n)\<close>: keeps the first \<open>n\<close> elements, pads with the default.\<close>

definition resize :: "nat \<Rightarrow> 'a \<Rightarrow> 'a list \<Rightarrow> 'a list" where
  "resize n d xs = take n xs @ replicate (n - length xs) d"

subsection \<open>set_sieve\<close>

text \<open>
  The two pair loops of \<^verbatim>\<open>set_sieve\<close> are the same code over the shell and the
  function matrix. The loop state is the pair list, the reverse map, \<^verbatim>\<open>offset\<close> and
  the running packed index \<^verbatim>\<open>MUNU\<close>.
\<close>

type_synonym pair_state = "(nat \<times> nat) list \<times> int list \<times> int \<times> nat"

definition pair_body :: "double list \<Rightarrow> nat \<Rightarrow> double \<Rightarrow> nat \<Rightarrow> nat \<Rightarrow> pair_state \<Rightarrow> pair_state" where
  "pair_body vals n cutoff MU NU = (\<lambda>(pairs, reverse, offset, MUNU).
     if dge (vals ! (MU * n + NU)) cutoff
     then (pairs @ [(MU, NU)], reverse[MUNU := offset], offset + 1, MUNU + 1)
     else (pairs, reverse[MUNU := -1], offset, MUNU + 1))"

definition pair_loops :: "double list \<Rightarrow> nat \<Rightarrow> double \<Rightarrow> pair_state \<Rightarrow> pair_state" where
  "pair_loops vals n cutoff = fold (\<lambda>MU. fold (pair_body vals n cutoff MU) [0..<Suc MU]) [0..<n]"

text \<open>The two adjacency loops: \<^verbatim>\<open>shell_to_shell_[MU].push_back(NU)\<close>.\<close>

definition adj_body :: "double list \<Rightarrow> nat \<Rightarrow> double \<Rightarrow> nat \<Rightarrow> nat \<Rightarrow> nat list list \<Rightarrow> nat list list" where
  "adj_body vals n cutoff MU NU adj =
     (if dge (vals ! (MU * n + NU)) cutoff then adj[MU := adj ! MU @ [NU]] else adj)"

definition adj_loops :: "double list \<Rightarrow> nat \<Rightarrow> double \<Rightarrow> nat list list \<Rightarrow> nat list list" where
  "adj_loops vals n cutoff = fold (\<lambda>MU. fold (adj_body vals n cutoff MU) [0..<n]) [0..<n]"

text \<open>
  \<^verbatim>\<open>set_sieve\<close>, statement by statement. The debug dump is left out: it only prints,
  and \<^verbatim>\<open>debug_\<close> is always 0.
\<close>

definition set_sieve :: "double \<Rightarrow> erisieve \<Rightarrow> erisieve" where
  "set_sieve sv s0 =
    (let s1 = s0\<lparr>sieve_cutoff := sv\<rparr>;
         s2 = s1\<lparr>sieve2 := dmul (sieve_cutoff s1) sv\<rparr>;
         s3 = s2\<lparr>sieve_over_max := ddiv (sieve_cutoff s2) (max_value s2)\<rparr>;
         s4 = s3\<lparr>sieve2_over_max := ddiv (sieve2 s3) (max_value s3)\<rparr>;
         s5 = s4\<lparr>shell_pairs := [], function_pairs := []\<rparr>;
         s6 = s5\<lparr>shell_pairs_reverse :=
                   resize (nshell s5 * (nshell s5 + 1) div 2) 0 (shell_pairs_reverse s5)\<rparr>;
         s7 = s6\<lparr>function_pairs_reverse :=
                   resize (nbf s6 * (nbf s6 + 1) div 2) 0 (function_pairs_reverse s6)\<rparr>;
         (sp, spr, offset, MUNU) =
            pair_loops (shell_pair_values s7) (nshell s7) (sieve2_over_max s7)
              (shell_pairs s7, shell_pairs_reverse s7, 0, 0);
         s8 = s7\<lparr>shell_pairs := sp, shell_pairs_reverse := spr\<rparr>;
         (fp, fpr, offset, munu) =
            pair_loops (function_pair_values s8) (nbf s8) (sieve2_over_max s8)
              (function_pairs s8, function_pairs_reverse s8, 0, 0);
         s9 = s8\<lparr>function_pairs := fp, function_pairs_reverse := fpr\<rparr>;
         s10 = s9\<lparr>shell_to_shell := replicate (nshell s9) [],
                   function_to_function := replicate (nbf s9) []\<rparr>;
         s11 = s10\<lparr>shell_to_shell :=
                   adj_loops (shell_pair_values s10) (nshell s10) (sieve2_over_max s10)
                     (shell_to_shell s10)\<rparr>;
         s12 = s11\<lparr>function_to_function :=
                   adj_loops (function_pair_values s11) (nbf s11) (sieve2_over_max s11)
                     (function_to_function s11)\<rparr>
     in s12)"

subsection \<open>The basis set and the integral engine\<close>

text \<open>
  \<^verbatim>\<open>primary_\<close> is read through \<^verbatim>\<open>nshell()\<close>, \<^verbatim>\<open>nbf()\<close> and, for each shell,
  \<^verbatim>\<open>nfunction()\<close> and \<^verbatim>\<open>function_index()\<close>. The engine is a parameter:
  \<open>eri P Q R S\<close> is the content of \<^verbatim>\<open>eri->buffer()\<close> after
  \<^verbatim>\<open>eri->compute_shell(P, Q, R, S)\<close>, as a function of the offset.
\<close>

record gshell =
  nfunction :: nat
  function_index :: nat

record basisset =
  shells :: "gshell list"
  basis_nbf :: nat

type_synonym eri_engine = "nat \<Rightarrow> nat \<Rightarrow> nat \<Rightarrow> nat \<Rightarrow> nat \<Rightarrow> double"

subsection \<open>integrals\<close>

text \<open>The scan for \<^verbatim>\<open>max_val\<close> over the diagonal elements \<open>(pq|pq)\<close> of one block.\<close>

definition schwarz_max :: "(nat \<Rightarrow> double) \<Rightarrow> nat \<Rightarrow> nat \<Rightarrow> double" where
  "schwarz_max buffer nP nQ =
     fold (\<lambda>p. fold (\<lambda>q max_val.
              dmax max_val (dabs (buffer (p * (nQ * nP * nQ + nQ) + q * (nP * nQ + 1)))))
            [0..<nQ])
       [0..<nP] (Fin 0)"

text \<open>The second scan writes \<^verbatim>\<open>max_val\<close> into the block of the function matrix and its transpose.\<close>

definition fill_block :: "nat \<Rightarrow> nat \<Rightarrow> nat \<Rightarrow> nat \<Rightarrow> nat \<Rightarrow> double \<Rightarrow> double list \<Rightarrow> double list" where
  "fill_block n_bf nP nQ oP oQ max_val =
     fold (\<lambda>p. fold (\<lambda>q F. F[(q + oQ) * n_bf + (p + oP) := max_val,
                              (p + oP) * n_bf + (q + oQ) := max_val])
            [0..<nQ])
       [0..<nP]"

text \<open>The loop state of \<^verbatim>\<open>integrals\<close>: \<^verbatim>\<open>max_\<close>, the shell matrix and the function matrix.\<close>

type_synonym schwarz_state = "double \<times> double list \<times> double list"

definition integrals_body :: "basisset \<Rightarrow> eri_engine \<Rightarrow> nat \<Rightarrow> nat \<Rightarrow> nat \<Rightarrow> nat \<Rightarrow> schwarz_state \<Rightarrow> schwarz_state" where
  "integrals_body primary eri n_shell n_bf P Q = (\<lambda>(mx, D, F).
     let nP = nfunction (shells primary ! P);
         nQ = nfunction (shells primary ! Q);
         oP = function_index (shells primary ! P);
         oQ = function_index (shells primary ! Q);
         buffer = eri P Q P Q;
         max_val = schwarz_max buffer nP nQ
     in (dmax mx max_val,
         D[Q * n_shell + P := max_val, P * n_shell + Q := max_val],
         fill_block n_bf nP nQ oP oQ max_val F))"

definition integrals_loops :: "basisset \<Rightarrow> eri_engine \<Rightarrow> nat \<Rightarrow> nat \<Rightarrow> schwarz_state \<Rightarrow> schwarz_state" where
  "integrals_loops primary eri n_shell n_bf =
     fold (\<lambda>P. fold (integrals_body primary eri n_shell n_bf P) [0..<Suc P]) [0..<n_shell]"

text \<open>
  \<^verbatim>\<open>integrals\<close>: sizes from the basis, both matrices resized and zeroed by
  \<^verbatim>\<open>memset\<close>, \<^verbatim>\<open>max_\<close> zero, then the loops. The \<^verbatim>\<open>#if 0\<close> block is not code.
\<close>

definition integrals :: "basisset \<Rightarrow> eri_engine \<Rightarrow> erisieve \<Rightarrow> erisieve" where
  "integrals primary eri s0 =
    (let n_shell = length (shells primary);
         n_bf = basis_nbf primary;
         s1 = s0\<lparr>nbf := n_bf\<rparr>;
         s2 = s1\<lparr>nshell := n_shell\<rparr>;
         s3 = s2\<lparr>function_pair_values := replicate (n_bf * n_bf) (Fin 0)\<rparr>;
         s4 = s3\<lparr>shell_pair_values := replicate (n_shell * n_shell) (Fin 0)\<rparr>;
         s5 = s4\<lparr>max_value := Fin 0\<rparr>;
         (mx, D, F) = integrals_loops primary eri (nshell s5) (nbf s5)
                        (max_value s5, shell_pair_values s5, function_pair_values s5)
     in s5\<lparr>max_value := mx, shell_pair_values := D, function_pair_values := F\<rparr>)"

subsection \<open>csam_integrals\<close>

text \<open>
  The loops of \<^verbatim>\<open>csam_integrals\<close> work on \<^verbatim>\<open>function_sqrt_\<close> and the exchange matrix.
  The model adds a log of the accesses to \<^verbatim>\<open>function_sqrt_\<close>, in program order:
  \<open>Wr P Q f v\<close> is the assignment of \<open>v\<close> to \<^verbatim>\<open>function_sqrt_[f]\<close> and \<open>Rd P Q f v\<close>
  the read of \<^verbatim>\<open>function_sqrt_[f]\<close> as a divisor, which found \<open>v\<close> there, both in the
  iteration of the shell pair \<open>(P, Q)\<close>. The value logged is the value stored or
  divided by. The log is not a field of the object.
\<close>

datatype access = Wr nat nat nat double | Rd nat nat nat double

type_synonym csam_state = "double list \<times> double list \<times> access list"

definition csam_diagonal :: "(nat \<Rightarrow> double) \<Rightarrow> nat \<Rightarrow> nat \<Rightarrow> nat \<Rightarrow> nat \<Rightarrow> double list \<times> access list \<Rightarrow> double list \<times> access list" where
  "csam_diagonal buffer P Q nP oP =
     fold (\<lambda>p (fsqrt, alog).
             let v = dsqrt (dabs (buffer (p * (nP * nP * nP + nP) + p * (nP * nP + 1))))
             in (fsqrt[oP + p := v], alog @ [Wr P Q (oP + p) v]))
       [0..<nP]"

definition csam_max :: "(nat \<Rightarrow> double) \<Rightarrow> double list \<Rightarrow> nat \<Rightarrow> nat \<Rightarrow> nat \<Rightarrow> nat \<Rightarrow> nat \<Rightarrow> nat \<Rightarrow> double \<times> access list \<Rightarrow> double \<times> access list" where
  "csam_max buffer fsqrt P Q nP nQ oP oQ =
     fold (\<lambda>p. fold (\<lambda>q (max_val, alog).
              let sp = fsqrt ! (p + oP);
                  sq = fsqrt ! (q + oQ)
              in (dmax max_val
                    (ddiv (dabs (buffer (p * nQ * nQ * (nP + 1) + q * (nQ + 1))))
                          (dmul sp sq)),
                  alog @ [Rd P Q (p + oP) sp, Rd P Q (q + oQ) sq]))
            [0..<nQ])
       [0..<nP]"

definition csam_body :: "basisset \<Rightarrow> eri_engine \<Rightarrow> nat \<Rightarrow> nat \<Rightarrow> nat \<Rightarrow> csam_state \<Rightarrow> csam_state" where
  "csam_body primary eri n_shell P Q = (\<lambda>(fsqrt, X, alog).
     let nP = nfunction (shells primary ! P);
         nQ = nfunction (shells primary ! Q);
         oP = function_index (shells primary ! P);
         oQ = function_index (shells primary ! Q);
         buffer = eri P P Q Q;
         (fsqrt, alog) = (if Q = P then csam_diagonal buffer P Q nP oP (fsqrt, alog)
                         else (fsqrt, alog));
         (max_val, alog) = csam_max buffer fsqrt P Q nP nQ oP oQ (Fin 0, alog)
     in (fsqrt, X[Q * n_shell + P := max_val, P * n_shell + Q := max_val], alog))"

text \<open>\<^verbatim>\<open>for (P = 0; P < nshell_; P++) for (Q = P; Q >= 0; Q--)\<close>.\<close>

definition csam_loops :: "basisset \<Rightarrow> eri_engine \<Rightarrow> nat \<Rightarrow> csam_state \<Rightarrow> csam_state" where
  "csam_loops primary eri n_shell =
     fold (\<lambda>P. fold (csam_body primary eri n_shell P) (rev [0..<Suc P])) [0..<n_shell]"

definition csam_run :: "basisset \<Rightarrow> eri_engine \<Rightarrow> nat \<Rightarrow> nat \<Rightarrow> csam_state" where
  "csam_run primary eri n_shell n_bf =
     csam_loops primary eri n_shell
       (replicate n_bf (Fin 0), replicate (n_shell * n_shell) (Fin 0), [])"

definition csam_integrals :: "basisset \<Rightarrow> eri_engine \<Rightarrow> erisieve \<Rightarrow> erisieve" where
  "csam_integrals primary eri s =
    (let (fsqrt, X, alog) = csam_run primary eri (nshell s) (nbf s)
     in s\<lparr>function_sqrt := fsqrt, shell_pair_exchange_values := X\<rparr>)"

definition csam_trace :: "basisset \<Rightarrow> eri_engine \<Rightarrow> access list" where
  "csam_trace primary eri =
     snd (snd (csam_run primary eri (length (shells primary)) (basis_nbf primary)))"

subsection \<open>Construction\<close>

text \<open>
  Before the body of the constructor runs, the vectors are empty; the scalar members
  are all assigned before they are read, so the model starts them at zero.
\<close>

definition blank :: erisieve where
  "blank = \<lparr>nshell = 0, nbf = 0, do_csam = False, do_qqr = False, debug = 0,
     sieve_cutoff = Fin 0, sieve2 = Fin 0, sieve_over_max = Fin 0, sieve2_over_max = Fin 0,
     max_value = Fin 0,
     function_pair_values = [], shell_pair_values = [],
     shell_pair_exchange_values = [], function_sqrt = [],
     shell_pairs = [], function_pairs = [],
     shell_pairs_reverse = [], function_pairs_reverse = [],
     shell_to_shell = [], function_to_function = []\<rparr>"

definition common_init :: "basisset \<Rightarrow> eri_engine \<Rightarrow> erisieve \<Rightarrow> erisieve" where
  "common_init primary eri s0 =
    (let s1 = s0\<lparr>do_qqr := False\<rparr>;
         s2 = s1\<lparr>debug := 0\<rparr>;
         s3 = integrals primary eri s2;
         s4 = (if do_csam s3 then csam_integrals primary eri s3 else s3)
     in set_sieve (sieve_cutoff s4) s4)"

definition ERISieve :: "basisset \<Rightarrow> double \<Rightarrow> bool \<Rightarrow> eri_engine \<Rightarrow> erisieve" where
  "ERISieve primary sv csam eri =
     common_init primary eri (blank\<lparr>sieve_cutoff := sv, do_csam := csam\<rparr>)"

subsection \<open>shell_significant_csam and shell_pair_value\<close>

definition shell_significant_csam :: "erisieve \<Rightarrow> nat \<Rightarrow> nat \<Rightarrow> nat \<Rightarrow> nat \<Rightarrow> bool" where
  "shell_significant_csam s M N R S =
    (let mn_mn = shell_pair_values s ! (N * nshell s + M);
         rs_rs = shell_pair_values s ! (S * nshell s + R);
         mm_rr = shell_pair_exchange_values s ! (R * nshell s + M);
         nn_ss = shell_pair_exchange_values s ! (S * nshell s + N);
         mm_ss = shell_pair_exchange_values s ! (S * nshell s + M);
         nn_rr = shell_pair_exchange_values s ! (R * nshell s + N);
         csam_2 = dmax (dmul mm_rr nn_ss) (dmul mm_ss nn_rr);
         mnrs_2 = dmul (dmul mn_mn rs_rs) csam_2
     in dge (dabs mnrs_2) (sieve2 s))"

definition shell_pair_value :: "erisieve \<Rightarrow> nat \<Rightarrow> nat \<Rightarrow> double" where
  "shell_pair_value s m n = shell_pair_values s ! (m * nshell s + n)"

text \<open>
  \<^verbatim>\<open>shell_significant_qqr\<close> reads \<^verbatim>\<open>contracted_centers_\<close> and \<^verbatim>\<open>extents_\<close>, which no
  code of this file fills, and \<^verbatim>\<open>do_qqr_\<close> is always false; it is left out.
\<close>

section \<open>Notions used to state the properties\<close>

subsection \<open>Well-formed objects and bases\<close>

text \<open>
  The matrices of an object have the sizes that \<^verbatim>\<open>integrals\<close> gives them, so that
  every read \<^verbatim>\<open>shell_pair_values_[MU * nshell_ + NU]\<close> of \<^verbatim>\<open>set_sieve\<close> is in range.
\<close>

definition sized :: "erisieve \<Rightarrow> bool" where
  "sized s = (length (shell_pair_values s) = nshell s * nshell s \<and>
              length (function_pair_values s) = nbf s * nbf s)"

text \<open>All bounds lie between zero and \<^verbatim>\<open>max_\<close>, in the order of \<^verbatim>\<open>double\<close>.\<close>

definition bounded :: "erisieve \<Rightarrow> bool" where
  "bounded s =
     (dle (Fin 0) (max_value s) \<and>
      (\<forall>v\<in>set (shell_pair_values s). dle (Fin 0) v \<and> dle v (max_value s)) \<and>
      (\<forall>v\<in>set (function_pair_values s). dle (Fin 0) v \<and> dle v (max_value s)))"

text \<open>
  A well-formed basis: every shell owns a contiguous range of function indices, the
  ranges follow each other in shell order from 0, and \<^verbatim>\<open>nbf()\<close> is their total
  length. \<open>shell_of primary p\<close> is the shell that owns the function \<open>p\<close>.
\<close>

fun contiguous :: "nat \<Rightarrow> gshell list \<Rightarrow> bool" where
  "contiguous off [] = True"
| "contiguous off (sh # shs) = (function_index sh = off \<and> contiguous (off + nfunction sh) shs)"

definition wf_basis :: "basisset \<Rightarrow> bool" where
  "wf_basis primary =
     (contiguous 0 (shells primary) \<and>
      basis_nbf primary = sum_list (map nfunction (shells primary)))"

fun shell_of_list :: "gshell list \<Rightarrow> nat \<Rightarrow> nat" where
  "shell_of_list [] p = 0"
| "shell_of_list (sh # shs) p =
     (if function_index sh \<le> p \<and> p < function_index sh + nfunction sh then 0
      else Suc (shell_of_list shs p))"

definition shell_of :: "basisset \<Rightarrow> nat \<Rightarrow> nat" where
  "shell_of primary p = shell_of_list (shells primary) p"

subsection \<open>The lists and maps of set_sieve\<close>

text \<open>
  The order of the pair list: ascending in the first index, then in the second.
\<close>

definition lex_less :: "nat \<times> nat \<Rightarrow> nat \<times> nat \<Rightarrow> bool" where
  "lex_less = (\<lambda>(M, N) (M', N'). M < M' \<or> (M = M' \<and> N < N'))"

text \<open>
  A pair list is exact for a matrix and a cutoff when it holds the canonical pairs
  that meet the cutoff, and only them, in strictly ascending order.
\<close>

definition pairs_exact :: "nat \<Rightarrow> double list \<Rightarrow> double \<Rightarrow> (nat \<times> nat) list \<Rightarrow> bool" where
  "pairs_exact n vals cutoff pairs =
     (set pairs = {(M, N). M < n \<and> N \<le> M \<and> dge (vals ! (M * n + N)) cutoff} \<and>
      sorted_wrt lex_less pairs)"

text \<open>
  A packed reverse map corresponds to a pair list when, for every canonical pair, its
  entry is in range, is \<open>-1\<close> exactly if the pair is not in the list, and otherwise is
  the position of the pair in the list.
\<close>

definition reverse_corresponds :: "nat \<Rightarrow> int list \<Rightarrow> (nat \<times> nat) list \<Rightarrow> bool" where
  "reverse_corresponds n reverse pairs =
     (\<forall>M\<in>{0..<n}. \<forall>N\<in>{0..M}.
        M * (M + 1) div 2 + N < length reverse \<and>
        (let r = reverse ! (M * (M + 1) div 2 + N)
         in (r = -1 \<longleftrightarrow> (M, N) \<notin> set pairs) \<and>
            (r \<noteq> -1 \<longrightarrow> 0 \<le> r \<and> nat r < length pairs \<and> pairs ! nat r = (M, N))))"

text \<open>
  The entries of a packed reverse map are decided by the test: the entry of a
  canonical pair is not \<open>-1\<close> exactly if the bound of the pair meets the cutoff.
\<close>

definition reverse_decided :: "nat \<Rightarrow> double list \<Rightarrow> double \<Rightarrow> int list \<Rightarrow> bool" where
  "reverse_decided n vals cutoff reverse =
     (\<forall>M\<in>{0..<n}. \<forall>N\<in>{0..M}.
        (reverse ! (M * (M + 1) div 2 + N) \<noteq> -1) = dge (vals ! (M * n + N)) cutoff)"

text \<open>
  Adjacency lists are exact when there is one per index and the list of \<open>M\<close> holds
  the partners \<open>N\<close> that meet the cutoff, and only them, in strictly ascending order.
\<close>

definition adjacency_exact :: "nat \<Rightarrow> double list \<Rightarrow> double \<Rightarrow> nat list list \<Rightarrow> bool" where
  "adjacency_exact n vals cutoff adj =
     (length adj = n \<and>
      (\<forall>M\<in>{0..<n}. set (adj ! M) = {N. N < n \<and> dge (vals ! (M * n + N)) cutoff} \<and>
                    sorted_wrt (<) (adj ! M)))"

subsection \<open>The CSAM test in the words of the specification\<close>

text \<open>
  \<open>csam\<^sup>2 = max (X[M][R] \<cdot> X[N][S], X[M][S] \<cdot> X[N][R])\<close>,
  \<open>mnrs\<^sup>2 = D[N][M] \<cdot> D[S][R] \<cdot> csam\<^sup>2\<close>, and the test is \<open>|mnrs\<^sup>2| \<ge> \<tau>\<^sup>2\<close>, where
  \<open>D[P][Q]\<close> and \<open>X[P][Q]\<close> are the entries at \<open>P * nshell + Q\<close>.
\<close>

definition csam_significant_spec :: "erisieve \<Rightarrow> nat \<Rightarrow> nat \<Rightarrow> nat \<Rightarrow> nat \<Rightarrow> bool" where
  "csam_significant_spec s M N R S =
    (let D = (\<lambda>P Q. shell_pair_values s ! (P * nshell s + Q));
         X = (\<lambda>P Q. shell_pair_exchange_values s ! (P * nshell s + Q));
         tau = sieve_cutoff s;
         csam2 = dmax (dmul (X M R) (X N S)) (dmul (X M S) (X N R));
         mnrs2 = dmul (dmul (D N M) (D S R)) csam2
     in dge (dabs mnrs2) (dmul tau tau))"

subsection \<open>Reading the access log\<close>

text \<open>
  \<open>writes_of f tr\<close> counts the assignments to \<^verbatim>\<open>function_sqrt_[f]\<close> in the log, and
  \<open>written_before tr i f\<close> says that one of them comes before position \<open>i\<close>.
\<close>

definition is_write :: "nat \<Rightarrow> access \<Rightarrow> bool" where
  "is_write f e = (case e of Wr P Q g v \<Rightarrow> g = f | Rd P Q g v \<Rightarrow> False)"

definition writes_of :: "nat \<Rightarrow> access list \<Rightarrow> nat" where
  "writes_of f tr = length (filter (is_write f) tr)"

definition written_before :: "access list \<Rightarrow> nat \<Rightarrow> nat \<Rightarrow> bool" where
  "written_before tr i f = (\<exists>e\<in>set (take i tr). is_write f e)"

text \<open>
  The diagonal square root of the function \<open>f\<close>: the square root of the absolute
  value of the element \<open>(ff|ff)\<close>, which the engine returns in the block of the shell
  of \<open>f\<close> with itself.
\<close>

definition diagonal_sqrt :: "basisset \<Rightarrow> eri_engine \<Rightarrow> nat \<Rightarrow> double" where
  "diagonal_sqrt primary eri f =
    (let P = shell_of primary f;
         nP = nfunction (shells primary ! P);
         p = f - function_index (shells primary ! P)
     in dsqrt (dabs (eri P P P P (p * (nP * nP * nP + nP) + p * (nP * nP + 1)))))"

text \<open>
  The exchange bound of the shell pair \<open>(P, Q)\<close>: the largest of the elements
  \<open>|(pp|qq)|\<close> of the block \<open>(PP|QQ)\<close>, each divided by the product of the diagonal
  square roots of \<open>p\<close> and \<open>q\<close>, starting from zero.
\<close>

definition exchange_bound :: "basisset \<Rightarrow> eri_engine \<Rightarrow> nat \<Rightarrow> nat \<Rightarrow> double" where
  "exchange_bound primary eri P Q =
    (let nP = nfunction (shells primary ! P);
         nQ = nfunction (shells primary ! Q);
         oP = function_index (shells primary ! P);
         oQ = function_index (shells primary ! Q)
     in fold (\<lambda>p. fold (\<lambda>q max_val.
                 dmax max_val
                   (ddiv (dabs (eri P P Q Q (p * nQ * nQ * (nP + 1) + q * (nQ + 1))))
                         (dmul (diagonal_sqrt primary eri (p + oP))
                               (diagonal_sqrt primary eri (q + oQ)))))
               [0..<nQ])
          [0..<nP] (Fin 0))"

section \<open>Notions used in the proofs\<close>

subsection \<open>The pair loops\<close>

text \<open>
  The packed index of row \<open>M\<close> starts at the triangular number \<open>M (M + 1) / 2\<close>;
  \<open>tri n\<close> lists the canonical pairs in the order in which the pair loops visit
  them. One step of a pair loop depends on the pair only through the test
  \<open>significant\<close>; \<open>rev_entries\<close> is what the loop leaves in the reverse map and
  \<open>partners\<close> what the adjacency loop leaves in one adjacency list.
\<close>

definition tnum :: "nat \<Rightarrow> nat" where
  "tnum M = M * (M + 1) div 2"

definition tri :: "nat \<Rightarrow> (nat \<times> nat) list" where
  "tri n = concat (map (\<lambda>M. map (Pair M) [0..<Suc M]) [0..<n])"

definition significant :: "double list \<Rightarrow> nat \<Rightarrow> double \<Rightarrow> nat \<times> nat \<Rightarrow> bool" where
  "significant vals n cutoff = (\<lambda>(MU, NU). dge (vals ! (MU * n + NU)) cutoff)"

definition pair_step :: "('a \<Rightarrow> bool) \<Rightarrow> 'a \<Rightarrow> 'a list \<times> int list \<times> int \<times> nat \<Rightarrow> 'a list \<times> int list \<times> int \<times> nat" where
  "pair_step sig p = (\<lambda>(pairs, reverse, offset, k).
     if sig p then (pairs @ [p], reverse[k := offset], offset + 1, k + 1)
     else (pairs, reverse[k := -1], offset, k + 1))"

fun rev_entries :: "('a \<Rightarrow> bool) \<Rightarrow> int \<Rightarrow> 'a list \<Rightarrow> int list" where
  "rev_entries sig off [] = []"
| "rev_entries sig off (p # ps) =
     (if sig p then off # rev_entries sig (off + 1) ps else -1 # rev_entries sig off ps)"

definition partners :: "double list \<Rightarrow> nat \<Rightarrow> double \<Rightarrow> nat \<Rightarrow> nat list" where
  "partners vals n cutoff MU = filter (\<lambda>NU. significant vals n cutoff (MU, NU)) [0..<n]"

subsection \<open>Invariants of the loops of integrals and csam_integrals\<close>

text \<open>
  \<open>schwarz_inv\<close>: sizes, bounds and symmetry of the shell matrix. \<open>block_replicated\<close>:
  every entry of the function matrix is the entry of the shell matrix for the shells
  of its two functions. \<open>exchange_inv\<close>: size and symmetry of the exchange matrix,
  and no NaN in it. \<open>start shs P\<close> is the number of functions before shell \<open>P\<close>.
\<close>

definition schwarz_inv :: "nat \<Rightarrow> nat \<Rightarrow> schwarz_state \<Rightarrow> bool" where
  "schwarz_inv n m = (\<lambda>(mx, D, F).
     length D = n * n \<and> length F = m * m \<and> dle (Fin 0) mx \<and>
     (\<forall>v\<in>set D. dle (Fin 0) v \<and> dle v mx) \<and>
     (\<forall>v\<in>set F. dle (Fin 0) v \<and> dle v mx) \<and>
     (\<forall>P<n. \<forall>Q<n. D ! (P * n + Q) = D ! (Q * n + P)))"

definition start :: "gshell list \<Rightarrow> nat \<Rightarrow> nat" where
  "start shs P = sum_list (map nfunction (take P shs))"

definition block_replicated :: "basisset \<Rightarrow> double list \<Rightarrow> double list \<Rightarrow> bool" where
  "block_replicated primary D F =
     (\<forall>A<length (shells primary). \<forall>B<length (shells primary).
      \<forall>a<nfunction (shells primary ! A). \<forall>b<nfunction (shells primary ! B).
        F ! ((function_index (shells primary ! A) + a) * basis_nbf primary +
             (function_index (shells primary ! B) + b)) =
        D ! (A * length (shells primary) + B))"

definition schwarz_ok :: "basisset \<Rightarrow> schwarz_state \<Rightarrow> bool" where
  "schwarz_ok primary = (\<lambda>(mx, D, F).
     schwarz_inv (length (shells primary)) (basis_nbf primary) (mx, D, F) \<and>
     block_replicated primary D F)"

definition exchange_inv :: "nat \<Rightarrow> csam_state \<Rightarrow> bool" where
  "exchange_inv n = (\<lambda>(fsqrt, X, alog).
     length X = n * n \<and> (\<forall>v\<in>set X. v \<noteq> NaN) \<and>
     (\<forall>P<n. \<forall>Q<n. X ! (P * n + Q) = X ! (Q * n + P)))"

text \<open>
  The loops of \<^verbatim>\<open>integrals\<close> from the zeroed matrices, and the object as it is when
  \<^verbatim>\<open>common_init\<close> reaches its call of \<^verbatim>\<open>set_sieve\<close>.
\<close>

definition schwarz_run :: "basisset \<Rightarrow> eri_engine \<Rightarrow> schwarz_state" where
  "schwarz_run primary eri =
     integrals_loops primary eri (length (shells primary)) (basis_nbf primary)
       (Fin 0, replicate (length (shells primary) * length (shells primary)) (Fin 0),
        replicate (basis_nbf primary * basis_nbf primary) (Fin 0))"

definition built :: "basisset \<Rightarrow> double \<Rightarrow> bool \<Rightarrow> eri_engine \<Rightarrow> erisieve" where
  "built primary sv csam eri =
     (let s3 = integrals primary eri (blank\<lparr>sieve_cutoff := sv, do_csam := csam\<rparr>)
      in if csam then csam_integrals primary eri s3 else s3)"

subsection \<open>Replaying the access log\<close>

text \<open>
  \<open>replay W tr\<close> runs through a log from the entries \<open>W\<close> already written, with
  their values: it stops with \<open>None\<close> at a second write of an entry and at a read
  that does not find the value written, and otherwise returns the entries written
  at the end. \<open>table_upto\<close> is the state in which the entries below \<open>k\<close> hold their
  diagonal square roots and no other entry is written. \<open>diag_inv\<close> is the invariant
  of the loops, and \<open>sqrt_inv\<close> the same on the whole loop state: the array holds the diagonal square roots below \<open>k\<close>, the log replays
  to that state, and every write of the log is made in an iteration \<open>(P, P)\<close> to a
  function of \<open>P\<close>.
\<close>

fun replay :: "(nat \<Rightarrow> double option) \<Rightarrow> access list \<Rightarrow> (nat \<Rightarrow> double option) option" where
  "replay W [] = Some W"
| "replay W (Wr P Q f v # es) = (if W f = None then replay (W(f \<mapsto> v)) es else None)"
| "replay W (Rd P Q f v # es) = (if W f = Some v then replay W es else None)"

definition table_upto :: "basisset \<Rightarrow> eri_engine \<Rightarrow> nat \<Rightarrow> nat \<Rightarrow> double option" where
  "table_upto primary eri k = (\<lambda>f. if f < k then Some (diagonal_sqrt primary eri f) else None)"

definition writes_diagonal :: "basisset \<Rightarrow> access list \<Rightarrow> bool" where
  "writes_diagonal primary tr =
     (\<forall>P Q f v. Wr P Q f v \<in> set tr \<longrightarrow>
        Q = P \<and> P < length (shells primary) \<and>
        function_index (shells primary ! P) \<le> f \<and>
        f < function_index (shells primary ! P) + nfunction (shells primary ! P))"

definition diag_inv :: "basisset \<Rightarrow> eri_engine \<Rightarrow> nat \<Rightarrow> double list \<times> access list \<Rightarrow> bool" where
  "diag_inv primary eri k = (\<lambda>(fsqrt, alog).
     length fsqrt = basis_nbf primary \<and>
     (\<forall>f<k. fsqrt ! f = diagonal_sqrt primary eri f) \<and>
     replay Map.empty alog = Some (table_upto primary eri k) \<and>
     writes_diagonal primary alog)"

definition sqrt_inv :: "basisset \<Rightarrow> eri_engine \<Rightarrow> nat \<Rightarrow> csam_state \<Rightarrow> bool" where
  "sqrt_inv primary eri k = (\<lambda>(fsqrt, X, alog). diag_inv primary eri k (fsqrt, alog))"

text \<open>
  \<open>exch_done xb n Pr X\<close>: the matrix \<open>X\<close> holds the value \<open>xb A B\<close> in both
  triangles for every pair \<open>(A, B)\<close> of \<open>Pr\<close>, the pairs processed so far.
\<close>

definition exch_done :: "(nat \<Rightarrow> nat \<Rightarrow> double) \<Rightarrow> nat \<Rightarrow> (nat \<times> nat) set \<Rightarrow> double list \<Rightarrow> bool" where
  "exch_done xb n Pr X =
     (length X = n * n \<and> Pr \<subseteq> {(A, B). B \<le> A \<and> A < n} \<and>
      (\<forall>(A, B)\<in>Pr. X ! (A * n + B) = xb A B \<and> X ! (B * n + A) = xb A B))"

definition csam_inv :: "basisset \<Rightarrow> eri_engine \<Rightarrow> nat \<Rightarrow> (nat \<times> nat) set \<Rightarrow> csam_state \<Rightarrow> bool" where
  "csam_inv primary eri k Pr st =
     (sqrt_inv primary eri k st \<and>
      exch_done (exchange_bound primary eri) (length (shells primary)) Pr (fst (snd st)))"

section \<open>A basis of two shells\<close>

text \<open>
  The examples are built by the constructor. The basis has a shell of one function
  and a shell of two; the engine returns the diagonal elements that give the bounds
  \<open>D = [[4, 1], [1, 9]]\<close>, hence \<open>max = 9\<close>, and the exchange matrix
  \<open>X = [[1, 1/2], [1/2, 1]]\<close>. \<open>dark\<close> is the same basis with an engine that returns
  zero everywhere, so that all bounds and \<^verbatim>\<open>max_\<close> are zero.
\<close>

definition example_basis :: basisset where
  "example_basis = \<lparr>shells = [\<lparr>nfunction = 1, function_index = 0\<rparr>,
                               \<lparr>nfunction = 2, function_index = 1\<rparr>],
                     basis_nbf = 3\<rparr>"

definition example_eri :: eri_engine where
  "example_eri P Q R S i =
     (if (P, Q, R, S) = (0, 0, 0, 0) then (if i = 0 then Fin 4 else Fin 0)
      else if (P, Q, R, S) = (1, 0, 1, 0) then
        (if i = 0 then Fin 1 else if i = 3 then Fin (1 / 2) else Fin 0)
      else if (P, Q, R, S) = (1, 1, 0, 0) then
        (if i = 0 then Fin 3 else if i = 3 then Fin 1 else Fin 0)
      else if (P, Q, R, S) = (1, 1, 1, 1) then
        (if i = 0 then Fin 9 else if i = 3 \<or> i = 12 then Fin 3
         else if i = 5 \<or> i = 10 then Fin 2 else if i = 15 then Fin 4 else Fin 0)
      else Fin 0)"

definition zero_eri :: eri_engine where
  "zero_eri P Q R S i = Fin 0"

definition example :: "double \<Rightarrow> erisieve" where
  "example sv = ERISieve example_basis sv True example_eri"

definition dark :: "double \<Rightarrow> erisieve" where
  "dark sv = ERISieve example_basis sv False zero_eri"

text \<open>The access log of \<^verbatim>\<open>csam_integrals\<close> on the example.\<close>

definition example_trace :: "access list" where
  "example_trace =
     [Wr 0 0 0 (Fin 2), Rd 0 0 0 (Fin 2), Rd 0 0 0 (Fin 2),
      Wr 1 1 1 (Fin 3), Wr 1 1 2 (Fin 2),
      Rd 1 1 1 (Fin 3), Rd 1 1 1 (Fin 3), Rd 1 1 1 (Fin 3), Rd 1 1 2 (Fin 2),
      Rd 1 1 2 (Fin 2), Rd 1 1 1 (Fin 3), Rd 1 1 2 (Fin 2), Rd 1 1 2 (Fin 2),
      Rd 1 0 1 (Fin 3), Rd 1 0 0 (Fin 2), Rd 1 0 2 (Fin 2), Rd 1 0 0 (Fin 2)]"

section \<open>The loops of set_sieve in closed form\<close>

lemma tnum_Suc: "tnum (Suc M) = tnum M + Suc M"
  unfolding tnum_def by (induction M) auto

lemma tnum_mono: "M \<le> M' \<Longrightarrow> tnum M \<le> tnum M'"
  by (induction M' ) (auto simp: tnum_Suc le_Suc_eq)

lemma tri_Suc: "tri (Suc n) = tri n @ map (Pair n) [0..<Suc n]"
  by (simp add: tri_def)

lemma length_tri: "length (tri n) = tnum n"
  by (induction n) (simp_all add: tri_Suc tnum_Suc, simp add: tri_def tnum_def)

lemma set_tri: "set (tri n) = {(M, N). N \<le> M \<and> M < n}"
  by (induction n) (auto simp: tri_Suc simp del: upt_Suc, simp add: tri_def)

lemma nth_tri: "N \<le> M \<Longrightarrow> M < n \<Longrightarrow> tri n ! (tnum M + N) = (M, N)"
proof (induction n)
  case 0
  then show ?case by simp
next
  case (Suc n)
  show ?case
  proof (cases "M < n")
    case True
    have "tnum M + N < tnum (Suc M)" using Suc.prems by (simp add: tnum_Suc)
    also have "\<dots> \<le> tnum n" using True by (intro tnum_mono) simp
    finally have "tnum M + N < length (tri n)" by (simp add: length_tri)
    then show ?thesis using Suc True by (simp add: tri_Suc nth_append)
  next
    case False
    then have M: "M = n" using Suc.prems by simp
    show ?thesis using Suc.prems unfolding M tri_Suc
      by (simp add: nth_append length_tri del: upt_Suc)
  qed
qed

lemma pair_body_step: "pair_body vals n cutoff MU NU = pair_step (significant vals n cutoff) (MU, NU)"
  by (simp add: pair_body_def pair_step_def significant_def)

lemma fold_concat_fold: "fold f (concat xss) = fold (fold f) xss"
  by (induction xss) simp_all

lemma pair_loops_fold: "pair_loops vals n cutoff = fold (pair_step (significant vals n cutoff)) (tri n)"
  unfolding pair_loops_def tri_def fold_concat_fold fold_map pair_body_step comp_def ..

lemma pair_step_apply:
  "pair_step sig p (pairs, reverse, offset, k) =
     (if sig p then (pairs @ [p], reverse[k := offset], offset + 1, k + 1)
      else (pairs, reverse[k := -1], offset, k + 1))"
  by (simp add: pair_step_def)

lemma fold_pair_step:
  "k + length ps \<le> length reverse \<Longrightarrow>
   fold (pair_step sig) ps (pairs, reverse, offset, k) =
     (pairs @ filter sig ps,
      take k reverse @ rev_entries sig offset ps @ drop (k + length ps) reverse,
      offset + int (length (filter sig ps)), k + length ps)"
proof (induction ps arbitrary: pairs reverse offset k)
  case Nil
  then show ?case by simp
next
  case (Cons p ps)
  have k: "k < length reverse" using Cons.prems by simp
  have tk: "take (Suc k) (reverse[k := v]) = take k reverse @ [v]" for v
    using k by (simp add: take_Suc_conv_app_nth)
  show ?case using Cons.prems k
    by (simp add: pair_step_apply Cons.IH tk)
qed

lemma length_rev_entries: "length (rev_entries sig off ps) = length ps"
  by (induction ps arbitrary: off) simp_all

lemma nth_rev_entries:
  "i < length ps \<Longrightarrow>
   rev_entries sig off ps ! i =
     (if sig (ps ! i) then off + int (length (filter sig (take i ps))) else -1)"
proof (induction ps arbitrary: off i)
  case Nil
  then show ?case by simp
next
  case (Cons p ps)
  then show ?case by (cases i) simp_all
qed

lemma nth_filter_take:
  assumes "i < length ps" and "sig (ps ! i)"
  shows "filter sig ps ! length (filter sig (take i ps)) = ps ! i"
proof -
  have "ps = take i ps @ ps ! i # drop (Suc i) ps"
    using assms(1) by (simp add: id_take_nth_drop)
  then have "filter sig ps = filter sig (take i ps) @ ps ! i # filter sig (drop (Suc i) ps)"
    using assms(2) by (metis filter.simps(2) filter_append)
  then show ?thesis by (simp add: nth_append)
qed

lemma length_filter_take_less:
  assumes "i < length ps" and "sig (ps ! i)"
  shows "length (filter sig (take i ps)) < length (filter sig ps)"
proof -
  have "ps = take i ps @ ps ! i # drop (Suc i) ps"
    using assms(1) by (simp add: id_take_nth_drop)
  then have "filter sig ps = filter sig (take i ps) @ ps ! i # filter sig (drop (Suc i) ps)"
    using assms(2) by (metis filter.simps(2) filter_append)
  then show ?thesis by simp
qed

lemma length_resize: "length (resize n d xs) = n"
  by (simp add: resize_def)

lemma pair_loops_full:
  "length reverse = tnum n \<Longrightarrow>
   pair_loops vals n cutoff ([], reverse, 0, 0) =
     (filter (significant vals n cutoff) (tri n),
      rev_entries (significant vals n cutoff) 0 (tri n),
      int (length (filter (significant vals n cutoff) (tri n))), tnum n)"
  unfolding pair_loops_fold
  by (subst fold_pair_step) (simp_all add: length_tri length_rev_entries)

lemma fold_adj_body:
  "MU < length adj \<Longrightarrow>
   fold (adj_body vals n cutoff MU) ns adj =
     adj[MU := adj ! MU @ filter (\<lambda>NU. significant vals n cutoff (MU, NU)) ns]"
proof (induction ns arbitrary: adj)
  case Nil
  then show ?case by simp
next
  case (Cons NU ns)
  then show ?case by (simp add: adj_body_def significant_def)
qed

lemma adj_outer:
  "m \<le> n \<Longrightarrow>
   fold (\<lambda>MU. fold (adj_body vals n cutoff MU) [0..<n]) [0..<m] (replicate n []) =
     map (partners vals n cutoff) [0..<m] @ replicate (n - m) []"
proof (induction m)
  case 0
  then show ?case by simp
next
  case (Suc m)
  then have m: "m < n" by simp
  have rep: "replicate (n - m) ([]::nat list) = [] # replicate (n - Suc m) []"
    using m by (metis Suc_diff_Suc replicate_Suc)
  have "fold (\<lambda>MU. fold (adj_body vals n cutoff MU) [0..<n]) [0..<Suc m] (replicate n []) =
        fold (adj_body vals n cutoff m) [0..<n]
          (map (partners vals n cutoff) [0..<m] @ replicate (n - m) [])"
    using Suc by simp
  also have "\<dots> = (map (partners vals n cutoff) [0..<m] @ replicate (n - m) [])
        [m := (map (partners vals n cutoff) [0..<m] @ replicate (n - m) []) ! m
              @ partners vals n cutoff m]"
    using m unfolding partners_def by (subst fold_adj_body) simp_all
  also have "\<dots> = map (partners vals n cutoff) [0..<Suc m] @ replicate (n - Suc m) []"
    unfolding rep by (simp add: nth_append list_update_append)
  finally show ?case .
qed

lemma adj_loops_closed:
  "adj_loops vals n cutoff (replicate n []) = map (partners vals n cutoff) [0..<n]"
  unfolding adj_loops_def by (simp add: adj_outer)

lemma set_sieve_closed:
  "set_sieve sv s =
     s\<lparr>sieve_cutoff := sv,
       sieve2 := dmul sv sv,
       sieve_over_max := ddiv sv (max_value s),
       sieve2_over_max := ddiv (dmul sv sv) (max_value s),
       shell_pairs :=
         filter (significant (shell_pair_values s) (nshell s) (ddiv (dmul sv sv) (max_value s)))
           (tri (nshell s)),
       function_pairs :=
         filter (significant (function_pair_values s) (nbf s) (ddiv (dmul sv sv) (max_value s)))
           (tri (nbf s)),
       shell_pairs_reverse :=
         rev_entries (significant (shell_pair_values s) (nshell s) (ddiv (dmul sv sv) (max_value s)))
           0 (tri (nshell s)),
       function_pairs_reverse :=
         rev_entries (significant (function_pair_values s) (nbf s) (ddiv (dmul sv sv) (max_value s)))
           0 (tri (nbf s)),
       shell_to_shell :=
         map (partners (shell_pair_values s) (nshell s) (ddiv (dmul sv sv) (max_value s)))
           [0..<nshell s],
       function_to_function :=
         map (partners (function_pair_values s) (nbf s) (ddiv (dmul sv sv) (max_value s)))
           [0..<nbf s]\<rparr>"
  by (simp add: set_sieve_def Let_def pair_loops_full length_resize tnum_def adj_loops_closed)

subsection \<open>What the closed form gives\<close>

lemma sorted_tri: "sorted_wrt lex_less (tri n)"
proof (induction n)
  case 0
  then show ?case by (simp add: tri_def)
next
  case (Suc n)
  have "sorted_wrt lex_less (map (Pair n) [0..<Suc n])"
    unfolding sorted_wrt_map by (simp add: lex_less_def del: upt_Suc)
  then show ?case using Suc unfolding tri_Suc
    by (auto simp: sorted_wrt_append set_tri lex_less_def simp del: upt_Suc)
qed

lemma pairs_exact_filter:
  "pairs_exact n vals cutoff (filter (significant vals n cutoff) (tri n))"
  unfolding pairs_exact_def
  by (auto simp: set_tri significant_def sorted_tri sorted_wrt_filter)

lemma reverse_corresponds_entries:
  "reverse_corresponds n (rev_entries sig 0 (tri n)) (filter sig (tri n))"
  unfolding reverse_corresponds_def
proof (intro ballI)
  fix M N assume "M \<in> {0..<n}" "N \<in> {0..M}"
  then have MN: "N \<le> M" "M < n" by simp_all
  define k where "k = M * (M + 1) div 2 + N"
  have k: "k = tnum M + N" by (simp add: k_def tnum_def)
  have "tnum M + N < tnum (Suc M)" using MN by (simp add: tnum_Suc)
  also have "\<dots> \<le> tnum n" using MN by (intro tnum_mono) simp
  finally have kl: "k < length (tri n)" by (simp add: length_tri k)
  have nth: "tri n ! k = (M, N)" unfolding k using MN by (rule nth_tri)
  have mem: "(M, N) \<in> set (tri n)" using MN by (simp add: set_tri)
  have entry: "rev_entries sig 0 (tri n) ! k =
      (if sig (M, N) then int (length (filter sig (take k (tri n)))) else -1)"
    using nth_rev_entries [OF kl, of sig 0] nth by simp
  have "k < length (rev_entries sig 0 (tri n)) \<and>
        (let r = rev_entries sig 0 (tri n) ! k
         in (r = -1 \<longleftrightarrow> (M, N) \<notin> set (filter sig (tri n))) \<and>
            (r \<noteq> -1 \<longrightarrow> 0 \<le> r \<and> nat r < length (filter sig (tri n)) \<and>
               filter sig (tri n) ! nat r = (M, N)))"
  proof (cases "sig (M, N)")
    case True
    have a: "length (filter sig (take k (tri n))) < length (filter sig (tri n))"
      using kl True nth by (intro length_filter_take_less) simp_all
    have b: "filter sig (tri n) ! length (filter sig (take k (tri n))) = (M, N)"
      using nth_filter_take [OF kl, of sig] True nth by simp
    show ?thesis using True a b mem kl
      by (simp add: Let_def entry length_rev_entries)
  next
    case False
    then show ?thesis using kl
      by (simp add: Let_def entry length_rev_entries)
  qed
  then show "M * (M + 1) div 2 + N < length (rev_entries sig 0 (tri n)) \<and>
        (let r = rev_entries sig 0 (tri n) ! (M * (M + 1) div 2 + N)
         in (r = -1 \<longleftrightarrow> (M, N) \<notin> set (filter sig (tri n))) \<and>
            (r \<noteq> -1 \<longrightarrow> 0 \<le> r \<and> nat r < length (filter sig (tri n)) \<and>
               filter sig (tri n) ! nat r = (M, N)))"
    unfolding k_def .
qed

lemma reverse_decided_entries:
  "reverse_decided n vals cutoff (rev_entries (significant vals n cutoff) 0 (tri n))"
  unfolding reverse_decided_def
proof (intro ballI)
  fix M N assume "M \<in> {0..<n}" "N \<in> {0..M}"
  then have MN: "N \<le> M" "M < n" by simp_all
  define k where "k = M * (M + 1) div 2 + N"
  have k: "k = tnum M + N" by (simp add: k_def tnum_def)
  have "tnum M + N < tnum (Suc M)" using MN by (simp add: tnum_Suc)
  also have "\<dots> \<le> tnum n" using MN by (intro tnum_mono) simp
  finally have kl: "k < length (tri n)" by (simp add: length_tri k)
  have nth: "tri n ! k = (M, N)" unfolding k using MN by (rule nth_tri)
  have "(rev_entries (significant vals n cutoff) 0 (tri n) ! k \<noteq> -1) =
        dge (vals ! (M * n + N)) cutoff"
    using nth_rev_entries [OF kl, of "significant vals n cutoff" 0] nth
    by (simp add: significant_def)
  then show "(rev_entries (significant vals n cutoff) 0 (tri n) ! (M * (M + 1) div 2 + N) \<noteq> -1) =
        dge (vals ! (M * n + N)) cutoff"
    unfolding k_def .
qed

lemma adjacency_exact_partners:
  "adjacency_exact n vals cutoff (map (partners vals n cutoff) [0..<n])"
  unfolding adjacency_exact_def
  by (auto simp: partners_def significant_def sorted_wrt_filter)

lemma set_sieve_fields:
  "nshell (set_sieve sv s) = nshell s"
  "nbf (set_sieve sv s) = nbf s"
  "max_value (set_sieve sv s) = max_value s"
  "shell_pair_values (set_sieve sv s) = shell_pair_values s"
  "function_pair_values (set_sieve sv s) = function_pair_values s"
  "shell_pair_exchange_values (set_sieve sv s) = shell_pair_exchange_values s"
  "function_sqrt (set_sieve sv s) = function_sqrt s"
  "do_csam (set_sieve sv s) = do_csam s"
  "sieve_cutoff (set_sieve sv s) = sv"
  "sieve2 (set_sieve sv s) = dmul sv sv"
  "sieve_over_max (set_sieve sv s) = ddiv sv (max_value s)"
  "sieve2_over_max (set_sieve sv s) = ddiv (dmul sv sv) (max_value s)"
  by (simp_all add: set_sieve_closed)

lemma set_sieve_lists:
  "shell_pairs (set_sieve sv s) =
     filter (significant (shell_pair_values s) (nshell s) (ddiv (dmul sv sv) (max_value s)))
       (tri (nshell s))"
  "function_pairs (set_sieve sv s) =
     filter (significant (function_pair_values s) (nbf s) (ddiv (dmul sv sv) (max_value s)))
       (tri (nbf s))"
  "shell_pairs_reverse (set_sieve sv s) =
     rev_entries (significant (shell_pair_values s) (nshell s) (ddiv (dmul sv sv) (max_value s)))
       0 (tri (nshell s))"
  "function_pairs_reverse (set_sieve sv s) =
     rev_entries (significant (function_pair_values s) (nbf s) (ddiv (dmul sv sv) (max_value s)))
       0 (tri (nbf s))"
  "shell_to_shell (set_sieve sv s) =
     map (partners (shell_pair_values s) (nshell s) (ddiv (dmul sv sv) (max_value s)))
       [0..<nshell s]"
  "function_to_function (set_sieve sv s) =
     map (partners (function_pair_values s) (nbf s) (ddiv (dmul sv sv) (max_value s)))
       [0..<nbf s]"
  by (simp_all add: set_sieve_closed)

lemma set_sieve_absorb: "set_sieve sv (set_sieve sv' s) = set_sieve sv s"
  by (simp add: set_sieve_closed)

section \<open>The loops of integrals\<close>

subsection \<open>Bounds and symmetry of the shell matrix\<close>

lemma dle_trans: "dle a b \<Longrightarrow> dle b c \<Longrightarrow> dle a c"
  by (cases a; cases b; cases c) (simp_all add: dle_def dge_def)

lemma dmax_abs_nonneg: "dle (Fin 0) a \<Longrightarrow> dle (Fin 0) (dmax a (dabs x))"
  by (cases a; cases x) (simp_all add: dle_def dge_def dmax_def)

lemma dmax_upper:
  "dle (Fin 0) a \<Longrightarrow> dle (Fin 0) b \<Longrightarrow>
   dle a (dmax a b) \<and> dle b (dmax a b) \<and> dle (Fin 0) (dmax a b)"
  by (cases a; cases b) (simp_all add: dle_def dge_def dmax_def)

lemma schwarz_max_nonneg: "dle (Fin 0) (schwarz_max buffer nP nQ)"
  unfolding schwarz_max_def
  by (rule fold_invariant [where Q = "\<lambda>_. True"], simp, simp add: dle_def dge_def,
      rule fold_invariant [where Q = "\<lambda>_. True"], simp_all add: dmax_abs_nonneg)

lemma fill_block_length: "length (fill_block m nP nQ oP oQ v F) = length F"
  unfolding fill_block_def
  by (rule fold_invariant [where Q = "\<lambda>_. True"], simp, simp,
      rule fold_invariant [where Q = "\<lambda>_. True"], simp_all)

lemma fill_block_set: "set (fill_block m nP nQ oP oQ v F) \<subseteq> insert v (set F)"
  unfolding fill_block_def
proof (rule fold_invariant [where Q = "\<lambda>_. True"])
  fix p and G :: "double list"
  assume G: "set G \<subseteq> insert v (set F)"
  show "set (fold (\<lambda>q F. F[(q + oQ) * m + (p + oP) := v, (p + oP) * m + (q + oQ) := v]) [0..<nQ] G)
          \<subseteq> insert v (set F)"
  proof (rule fold_invariant [where Q = "\<lambda>_. True"])
    fix q and H :: "double list"
    assume "set H \<subseteq> insert v (set F)"
    then show "set (H[(q + oQ) * m + (p + oP) := v, (p + oP) * m + (q + oQ) := v]) \<subseteq> insert v (set F)"
      by (intro set_update_subsetI) simp_all
  qed (simp_all add: G)
qed auto

lemma idx_inj: "B < n \<Longrightarrow> Q < n \<Longrightarrow> A * n + B = P * n + Q \<longleftrightarrow> A = P \<and> B = Q" for n :: nat
proof
  assume lt: "B < n" "Q < n" and eq: "A * n + B = P * n + Q"
  have "(A * n + B) div n = A" "(P * n + Q) div n = P" using lt by simp_all
  then have "A = P" using eq by simp
  then show "A = P \<and> B = Q" using eq by simp
qed simp

lemma idx_less: "A < n \<Longrightarrow> B < n \<Longrightarrow> A * n + B < n * n" for n :: nat
proof -
  assume "A < n" "B < n"
  then have "A * n + B < A * n + n" "Suc A \<le> n" by simp_all
  then have "A * n + B < Suc A * n" "Suc A * n \<le> n * n"
    by (simp, intro mult_le_mono1)
  then show ?thesis by linarith
qed

lemma nth_update2:
  "i < length D \<Longrightarrow> D[j := v, k := v] ! i = (if i = j \<or> i = k then v else D ! i)"
  by (cases "i = k"; cases "i = j") (simp_all add: nth_list_update)

lemma sym_update:
  assumes len: "length D = n * n" and sym: "\<forall>A<n. \<forall>B<n. D ! (A * n + B) = D ! (B * n + A)"
    and PQ: "P < n" "Q < n" and AB: "A < n" "B < n"
  shows "D[Q * n + P := v, P * n + Q := v] ! (A * n + B) =
         D[Q * n + P := v, P * n + Q := v] ! (B * n + A)"
proof -
  have i: "A * n + B < length D" "B * n + A < length D"
    using AB len by (simp_all add: idx_less)
  have D: "D ! (A * n + B) = D ! (B * n + A)" using sym AB by simp
  have e: "(A * n + B = Q * n + P \<or> A * n + B = P * n + Q) \<longleftrightarrow>
           (B * n + A = Q * n + P \<or> B * n + A = P * n + Q)"
    using PQ AB by (simp add: idx_inj) blast
  show ?thesis unfolding nth_update2 [OF i(1)] nth_update2 [OF i(2)] using D e by simp
qed

lemma integrals_body_inv:
  assumes "schwarz_inv n m st" and "P < n" and "Q < n"
  shows "schwarz_inv n m (integrals_body primary eri n m P Q st)"
proof -
  obtain mx D F where st: "st = (mx, D, F)" by (cases st) auto
  define v where "v = schwarz_max (eri P Q P Q) (nfunction (shells primary ! P)) (nfunction (shells primary ! Q))"
  define F' where "F' = fill_block m (nfunction (shells primary ! P)) (nfunction (shells primary ! Q))
      (function_index (shells primary ! P)) (function_index (shells primary ! Q)) v F"
  have body: "integrals_body primary eri n m P Q st =
      (dmax mx v, D[Q * n + P := v, P * n + Q := v], F')"
    by (simp add: integrals_body_def st Let_def v_def F'_def)
  have inv: "length D = n * n" "length F = m * m" "dle (Fin 0) mx"
      "\<forall>v\<in>set D. dle (Fin 0) v \<and> dle v mx" "\<forall>v\<in>set F. dle (Fin 0) v \<and> dle v mx"
      "\<forall>P<n. \<forall>Q<n. D ! (P * n + Q) = D ! (Q * n + P)"
    using assms(1) by (simp_all add: schwarz_inv_def st)
  have v0: "dle (Fin 0) v" unfolding v_def by (rule schwarz_max_nonneg)
  note up = dmax_upper [OF inv(3) v0]
  have old: "dle (Fin 0) w \<and> dle w (dmax mx v)" if "dle (Fin 0) w \<and> dle w mx" for w
    using that up dle_trans by blast
  have new: "dle (Fin 0) v \<and> dle v (dmax mx v)" using v0 up by simp
  have D': "\<forall>w\<in>set (D[Q * n + P := v, P * n + Q := v]). dle (Fin 0) w \<and> dle w (dmax mx v)"
  proof
    fix w assume "w \<in> set (D[Q * n + P := v, P * n + Q := v])"
    then have "w = v \<or> w \<in> set D"
      using set_update_subset_insert [of "D[Q * n + P := v]" "P * n + Q" v]
            set_update_subset_insert [of D "Q * n + P" v] by auto
    then show "dle (Fin 0) w \<and> dle w (dmax mx v)" using old new inv(4) by auto
  qed
  have F'b: "\<forall>w\<in>set F'. dle (Fin 0) w \<and> dle w (dmax mx v)"
  proof
    fix w assume "w \<in> set F'"
    then have "w = v \<or> w \<in> set F" using fill_block_set unfolding F'_def by fastforce
    then show "dle (Fin 0) w \<and> dle w (dmax mx v)" using old new inv(5) by auto
  qed
  have sym: "\<forall>A<n. \<forall>B<n. D[Q * n + P := v, P * n + Q := v] ! (A * n + B) =
                         D[Q * n + P := v, P * n + Q := v] ! (B * n + A)"
    using sym_update [OF inv(1) inv(6) assms(2,3)] by blast
  show ?thesis unfolding body schwarz_inv_def
    using inv(1,2) up D' F'b sym by (simp add: F'_def fill_block_length)
qed

subsection \<open>Function ranges of a well-formed basis\<close>

lemma contiguous_nth:
  "contiguous off shs \<Longrightarrow> P < length shs \<Longrightarrow> function_index (shs ! P) = off + start shs P"
proof (induction shs arbitrary: off P)
  case Nil
  then show ?case by simp
next
  case (Cons sh shs)
  show ?case using Cons.IH [of "off + nfunction sh" "P - 1"] Cons.prems
    by (cases P) (simp_all add: start_def)
qed

lemma start_Suc: "P < length shs \<Longrightarrow> start shs (Suc P) = start shs P + nfunction (shs ! P)"
  by (simp add: start_def take_Suc_conv_app_nth)

lemma start_mono: "P \<le> Q \<Longrightarrow> Q \<le> length shs \<Longrightarrow> start shs P \<le> start shs Q"
proof (induction Q)
  case 0
  then show ?case by simp
next
  case (Suc Q)
  then show ?case by (cases "P = Suc Q") (simp_all add: start_Suc le_Suc_eq)
qed

lemma start_length: "start shs (length shs) = sum_list (map nfunction shs)"
  by (simp add: start_def)

lemma wf_offset:
  "wf_basis primary \<Longrightarrow> P < length (shells primary) \<Longrightarrow>
   function_index (shells primary ! P) = start (shells primary) P"
  using contiguous_nth [of 0 "shells primary" P] by (simp add: wf_basis_def)

lemma wf_range_end:
  assumes "wf_basis primary" and "A < B" and "B < length (shells primary)"
  shows "function_index (shells primary ! A) + nfunction (shells primary ! A)
           \<le> function_index (shells primary ! B)"
proof -
  have "start (shells primary) (Suc A) \<le> start (shells primary) B"
    using assms by (intro start_mono) simp_all
  then show ?thesis using assms by (simp add: wf_offset start_Suc)
qed

lemma wf_in_range:
  assumes "wf_basis primary" and "P < length (shells primary)" and "p < nfunction (shells primary ! P)"
  shows "function_index (shells primary ! P) + p < basis_nbf primary"
proof -
  have "start (shells primary) (Suc P) \<le> start (shells primary) (length (shells primary))"
    using assms by (intro start_mono) simp_all
  then show ?thesis using assms by (simp add: wf_offset start_Suc start_length wf_basis_def)
qed

lemma wf_order:
  assumes "wf_basis primary" and "A < length (shells primary)" and "B < length (shells primary)"
    and "a < nfunction (shells primary ! A)"
    and "function_index (shells primary ! B) + b \<le> function_index (shells primary ! A) + a"
  shows "B \<le> A"
proof (rule ccontr)
  assume "\<not> B \<le> A"
  then have "A < B" by simp
  from wf_range_end [OF assms(1) this assms(3)] assms(4,5) show False by simp
qed

lemma wf_unique:
  assumes "wf_basis primary" and "A < length (shells primary)" and "P < length (shells primary)"
    and "a < nfunction (shells primary ! A)" and "p < nfunction (shells primary ! P)"
    and "function_index (shells primary ! A) + a = function_index (shells primary ! P) + p"
  shows "A = P \<and> a = p"
proof -
  have "P \<le> A" using wf_order [OF assms(1,2,3,4), of p] assms(6) by simp
  moreover have "A \<le> P" using wf_order [OF assms(1,3,2,5), of a] assms(6) by simp
  ultimately have "A = P" by simp
  then show ?thesis using assms(6) by simp
qed

subsection \<open>The blocks of the function matrix\<close>

lemma fold_update_inner:
  "i < length F \<Longrightarrow>
   fold (\<lambda>q F. F[f q := v, g q := v]) qs F ! i =
     (if \<exists>q\<in>set qs. i = f q \<or> i = g q then v else F ! i)"
proof (induction qs arbitrary: F)
  case Nil
  then show ?case by simp
next
  case (Cons q qs)
  then show ?case by (simp add: nth_update2)
qed

lemma fold_update_inner_length:
  "length (fold (\<lambda>q F. F[f q := v, g q := v]) qs F) = length F"
  by (induction qs arbitrary: F) simp_all

lemma fold_update_outer:
  "i < length F \<Longrightarrow>
   fold (\<lambda>p. fold (\<lambda>q F. F[f p q := v, g p q := v]) qs) ps F ! i =
     (if \<exists>p\<in>set ps. \<exists>q\<in>set qs. i = f p q \<or> i = g p q then v else F ! i)"
proof (induction ps arbitrary: F)
  case Nil
  then show ?case by simp
next
  case (Cons p ps)
  then show ?case by (simp add: fold_update_inner fold_update_inner_length)
qed

lemma fill_block_nth:
  "i < length F \<Longrightarrow>
   fill_block m nP nQ oP oQ v F ! i =
     (if \<exists>p<nP. \<exists>q<nQ. i = (q + oQ) * m + (p + oP) \<or> i = (p + oP) * m + (q + oQ)
      then v else F ! i)"
  unfolding fill_block_def by (simp add: fold_update_outer Bex_def)

lemma integrals_body_block:
  assumes wf: "wf_basis primary" and n: "n = length (shells primary)" and m: "m = basis_nbf primary"
    and inv: "schwarz_inv n m (mx, D, F)" and rep: "block_replicated primary D F"
    and P: "P < n" and Q: "Q < n"
    and st': "integrals_body primary eri n m P Q (mx, D, F) = (mx', D', F')"
  shows "block_replicated primary D' F'"
  unfolding block_replicated_def
proof (intro allI impI)
  fix A B a b
  assume A: "A < length (shells primary)" and B: "B < length (shells primary)"
    and a: "a < nfunction (shells primary ! A)" and b: "b < nfunction (shells primary ! B)"
  define v where "v = schwarz_max (eri P Q P Q) (nfunction (shells primary ! P)) (nfunction (shells primary ! Q))"
  define oA where "oA = function_index (shells primary ! A)"
  define oB where "oB = function_index (shells primary ! B)"
  define oP where "oP = function_index (shells primary ! P)"
  define oQ where "oQ = function_index (shells primary ! Q)"
  define nP where "nP = nfunction (shells primary ! P)"
  define nQ where "nQ = nfunction (shells primary ! Q)"
  have D': "D' = D[Q * n + P := v, P * n + Q := v]"
    and F': "F' = fill_block m nP nQ oP oQ v F"
    using st' by (simp_all add: integrals_body_def Let_def v_def oP_def oQ_def nP_def nQ_def)
  have len: "length D = n * n" "length F = m * m"
    using inv by (simp_all add: schwarz_inv_def)
  have ra: "oA + a < m" and rb: "oB + b < m"
    using wf_in_range [OF wf A a] wf_in_range [OF wf B b] by (simp_all add: m oA_def oB_def)
  have rp: "oP + p < m" if "p < nP" for p
    using wf_in_range [OF wf, of P p] P that by (simp add: m n oP_def nP_def)
  have rq: "oQ + q < m" if "q < nQ" for q
    using wf_in_range [OF wf, of Q q] Q that by (simp add: m n oQ_def nQ_def)
  have iF: "(oA + a) * m + (oB + b) < length F" using ra rb len by (simp add: idx_less)
  have iD: "A * n + B < length D" using A B len n by (simp add: idx_less)
  have uP: "A = P \<and> a = p" if "p < nP" "oA + a = oP + p" for p
    using wf_unique [OF wf A _ a, of P p] that P by (simp add: n oA_def oP_def nP_def)
  have uQ: "A = Q \<and> a = q" if "q < nQ" "oA + a = oQ + q" for q
    using wf_unique [OF wf A _ a, of Q q] that Q by (simp add: n oA_def oQ_def nQ_def)
  have vP: "B = P \<and> b = p" if "p < nP" "oB + b = oP + p" for p
    using wf_unique [OF wf B _ b, of P p] that P by (simp add: n oB_def oP_def nP_def)
  have vQ: "B = Q \<and> b = q" if "q < nQ" "oB + b = oQ + q" for q
    using wf_unique [OF wf B _ b, of Q q] that Q by (simp add: n oB_def oQ_def nQ_def)
  have cF: "(\<exists>p<nP. \<exists>q<nQ. (oA + a) * m + (oB + b) = (q + oQ) * m + (p + oP) \<or>
                            (oA + a) * m + (oB + b) = (p + oP) * m + (q + oQ))
            \<longleftrightarrow> (A = Q \<and> B = P) \<or> (A = P \<and> B = Q)" (is "?L \<longleftrightarrow> ?R")
  proof
    assume ?L
    then obtain p q where pq: "p < nP" "q < nQ"
      and eq: "(oA + a) * m + (oB + b) = (q + oQ) * m + (p + oP) \<or>
               (oA + a) * m + (oB + b) = (p + oP) * m + (q + oQ)" by blast
    from eq show ?R
    proof
      assume "(oA + a) * m + (oB + b) = (q + oQ) * m + (p + oP)"
      then have "oA + a = oQ + q \<and> oB + b = oP + p"
        using idx_inj [of "oB + b" m "p + oP" "oA + a" "q + oQ"] rb rp [OF pq(1)]
        by (simp add: add.commute)
      then show ?R using uQ [OF pq(2)] vP [OF pq(1)] by simp
    next
      assume "(oA + a) * m + (oB + b) = (p + oP) * m + (q + oQ)"
      then have "oA + a = oP + p \<and> oB + b = oQ + q"
        using idx_inj [of "oB + b" m "q + oQ" "oA + a" "p + oP"] rb rq [OF pq(2)]
        by (simp add: add.commute)
      then show ?R using uP [OF pq(1)] vQ [OF pq(2)] by simp
    qed
  next
    assume ?R
    then show ?L
    proof
      assume "A = Q \<and> B = P"
      then have "b < nP" "a < nQ" "(oA + a) * m + (oB + b) = (a + oQ) * m + (b + oP)"
        using a b by (simp_all add: nP_def nQ_def oA_def oB_def oP_def oQ_def add.commute)
      then show ?L by blast
    next
      assume "A = P \<and> B = Q"
      then have "a < nP" "b < nQ" "(oA + a) * m + (oB + b) = (a + oP) * m + (b + oQ)"
        using a b by (simp_all add: nP_def nQ_def oA_def oB_def oP_def oQ_def add.commute)
      then show ?L by blast
    qed
  qed
  have cD: "(A * n + B = Q * n + P \<or> A * n + B = P * n + Q)
            \<longleftrightarrow> (A = Q \<and> B = P) \<or> (A = P \<and> B = Q)"
    using A B P Q by (simp add: idx_inj n)
  have old: "F ! ((oA + a) * m + (oB + b)) = D ! (A * n + B)"
    using rep A B a b by (simp add: block_replicated_def oA_def oB_def m n)
  have "F' ! ((oA + a) * m + (oB + b)) = D' ! (A * n + B)"
    unfolding F' D' fill_block_nth [OF iF] nth_update2 [OF iD] cF cD using old by simp
  then show "F' ! ((function_index (shells primary ! A) + a) * basis_nbf primary +
                   (function_index (shells primary ! B) + b)) =
             D' ! (A * length (shells primary) + B)"
    by (simp add: oA_def oB_def m n)
qed

lemma integrals_body_ok:
  assumes "wf_basis primary" and "schwarz_ok primary st"
    and "P < length (shells primary)" and "Q < length (shells primary)"
  shows "schwarz_ok primary
           (integrals_body primary eri (length (shells primary)) (basis_nbf primary) P Q st)"
proof -
  obtain mx D F where st: "st = (mx, D, F)" by (cases st) auto
  obtain mx' D' F' where st':
    "integrals_body primary eri (length (shells primary)) (basis_nbf primary) P Q (mx, D, F) = (mx', D', F')"
    by (cases "integrals_body primary eri (length (shells primary)) (basis_nbf primary) P Q (mx, D, F)") auto
  have inv: "schwarz_inv (length (shells primary)) (basis_nbf primary) (mx, D, F)"
    and rep: "block_replicated primary D F"
    using assms(2) by (simp_all add: schwarz_ok_def st)
  have "schwarz_inv (length (shells primary)) (basis_nbf primary) (mx', D', F')"
    using integrals_body_inv [OF inv assms(3,4), of primary eri] st' by simp
  moreover have "block_replicated primary D' F'"
    using integrals_body_block [OF assms(1) refl refl inv rep assms(3,4) st'] .
  ultimately show ?thesis by (simp add: st st' schwarz_ok_def)
qed

lemma integrals_loops_ok:
  assumes "wf_basis primary" and "schwarz_ok primary st"
  shows "schwarz_ok primary
           (integrals_loops primary eri (length (shells primary)) (basis_nbf primary) st)"
  unfolding integrals_loops_def
proof (rule fold_invariant [where Q = "\<lambda>P. P < length (shells primary)"])
  show "\<And>x. x \<in> set [0..<length (shells primary)] \<Longrightarrow> x < length (shells primary)" by simp
  show "schwarz_ok primary st" by fact
next
  fix P st' assume P: "P < length (shells primary)" and st': "schwarz_ok primary st'"
  show "schwarz_ok primary
          (fold (integrals_body primary eri (length (shells primary)) (basis_nbf primary) P) [0..<Suc P] st')"
  proof (rule fold_invariant [where Q = "\<lambda>Q. Q < length (shells primary)"])
    show "\<And>x. x \<in> set [0..<Suc P] \<Longrightarrow> x < length (shells primary)" using P by auto
    show "schwarz_ok primary st'" by fact
    show "\<And>Q s. Q < length (shells primary) \<Longrightarrow> schwarz_ok primary s \<Longrightarrow>
            schwarz_ok primary
              (integrals_body primary eri (length (shells primary)) (basis_nbf primary) P Q s)"
      using P assms(1) by (simp add: integrals_body_ok)
  qed
qed

lemma schwarz_ok_initial:
  assumes "wf_basis primary"
  shows "schwarz_ok primary
     (Fin 0, replicate (length (shells primary) * length (shells primary)) (Fin 0),
      replicate (basis_nbf primary * basis_nbf primary) (Fin 0))"
proof -
  have "(function_index (shells primary ! A) + a) * basis_nbf primary +
        (function_index (shells primary ! B) + b) < basis_nbf primary * basis_nbf primary"
    if "A < length (shells primary)" "B < length (shells primary)"
       "a < nfunction (shells primary ! A)" "b < nfunction (shells primary ! B)" for A B a b
    using wf_in_range [OF assms that(1,3)] wf_in_range [OF assms that(2,4)] by (rule idx_less)
  then show ?thesis
    unfolding schwarz_ok_def schwarz_inv_def block_replicated_def
    by (simp add: dle_def dge_def idx_less)
qed

section \<open>The loops of csam_integrals\<close>

subsection \<open>The exchange matrix and the log\<close>

lemma dmax_not_NaN: "a \<noteq> NaN \<Longrightarrow> dmax a b \<noteq> NaN"
  by (cases a; cases b) (simp_all add: dmax_def)

lemma fold_log:
  assumes "\<And>x st. lg (g x st) = lg st @ E x"
  shows "lg (fold g xs st) = lg st @ concat (map E xs)"
  using assms by (induction xs arbitrary: st) simp_all

lemma csam_max_not_NaN:
  "fst st \<noteq> NaN \<Longrightarrow> fst (csam_max buffer fsqrt P Q nP nQ oP oQ st) \<noteq> NaN"
  unfolding csam_max_def
  by (rule fold_invariant [where Q = "\<lambda>_. True"], simp, simp,
      rule fold_invariant [where Q = "\<lambda>_. True"], simp_all add: split_def Let_def dmax_not_NaN)

lemma csam_body_X:
  "\<exists>v. v \<noteq> NaN \<and> fst (snd (csam_body primary eri n P Q (fsqrt, X, alog))) =
         X[Q * n + P := v, P * n + Q := v]"
proof -
  define fl where "fl = (if Q = P
      then csam_diagonal (eri P P Q Q) P Q (nfunction (shells primary ! P))
             (function_index (shells primary ! P)) (fsqrt, alog)
      else (fsqrt, alog))"
  define v where "v = fst (csam_max (eri P P Q Q) (fst fl) P Q
      (nfunction (shells primary ! P)) (nfunction (shells primary ! Q))
      (function_index (shells primary ! P)) (function_index (shells primary ! Q))
      (Fin 0, snd fl))"
  have "v \<noteq> NaN" unfolding v_def by (rule csam_max_not_NaN) simp
  moreover have "fst (snd (csam_body primary eri n P Q (fsqrt, X, alog))) =
      X[Q * n + P := v, P * n + Q := v]"
    by (simp add: csam_body_def Let_def split_def v_def fl_def)
  ultimately show ?thesis by blast
qed

lemma csam_body_inv:
  assumes "exchange_inv n st" and "P < n" and "Q < n"
  shows "exchange_inv n (csam_body primary eri n P Q st)"
proof -
  obtain fsqrt X alog where st: "st = (fsqrt, X, alog)" by (cases st) auto
  obtain v where v: "v \<noteq> NaN"
    and X': "fst (snd (csam_body primary eri n P Q (fsqrt, X, alog))) = X[Q * n + P := v, P * n + Q := v]"
    using csam_body_X by blast
  have inv: "length X = n * n" "\<forall>v\<in>set X. v \<noteq> NaN"
      "\<forall>P<n. \<forall>Q<n. X ! (P * n + Q) = X ! (Q * n + P)"
    using assms(1) by (simp_all add: exchange_inv_def st)
  have nn: "\<forall>w\<in>set (X[Q * n + P := v, P * n + Q := v]). w \<noteq> NaN"
  proof
    fix w assume "w \<in> set (X[Q * n + P := v, P * n + Q := v])"
    then have "w = v \<or> w \<in> set X"
      using set_update_subset_insert [of "X[Q * n + P := v]" "P * n + Q" v]
            set_update_subset_insert [of X "Q * n + P" v] by auto
    then show "w \<noteq> NaN" using v inv(2) by auto
  qed
  have sym: "\<forall>A<n. \<forall>B<n. X[Q * n + P := v, P * n + Q := v] ! (A * n + B) =
                         X[Q * n + P := v, P * n + Q := v] ! (B * n + A)"
    using sym_update [OF inv(1) inv(3) assms(2,3)] by blast
  show ?thesis using X' nn sym inv(1)
    by (cases "csam_body primary eri n P Q (fsqrt, X, alog)") (simp add: st exchange_inv_def)
qed

lemma csam_loops_inv:
  assumes "exchange_inv n st"
  shows "exchange_inv n (csam_loops primary eri n st)"
  unfolding csam_loops_def
proof (rule fold_invariant [where Q = "\<lambda>P. P < n"])
  show "\<And>x. x \<in> set [0..<n] \<Longrightarrow> x < n" by simp
  show "exchange_inv n st" by fact
next
  fix P st' assume P: "P < n" and st': "exchange_inv n st'"
  show "exchange_inv n (fold (csam_body primary eri n P) (rev [0..<Suc P]) st')"
  proof (rule fold_invariant [where Q = "\<lambda>Q. Q < n"])
    show "\<And>x. x \<in> set (rev [0..<Suc P]) \<Longrightarrow> x < n" using P by auto
    show "exchange_inv n st'" by fact
    show "\<And>Q s. Q < n \<Longrightarrow> exchange_inv n s \<Longrightarrow> exchange_inv n (csam_body primary eri n P Q s)"
      using P by (simp add: csam_body_inv)
  qed
qed

lemma csam_run_inv: "exchange_inv n (csam_run primary eri n m)"
  unfolding csam_run_def
  by (rule csam_loops_inv) (simp add: exchange_inv_def idx_less)

section \<open>The constructed object\<close>

lemma integrals_fields:
  "nshell (integrals primary eri s) = length (shells primary)"
  "nbf (integrals primary eri s) = basis_nbf primary"
  "max_value (integrals primary eri s) = fst (schwarz_run primary eri)"
  "shell_pair_values (integrals primary eri s) = fst (snd (schwarz_run primary eri))"
  "function_pair_values (integrals primary eri s) = snd (snd (schwarz_run primary eri))"
  "do_csam (integrals primary eri s) = do_csam s"
  "sieve_cutoff (integrals primary eri s) = sieve_cutoff s"
  "shell_pair_exchange_values (integrals primary eri s) = shell_pair_exchange_values s"
  by (simp_all add: integrals_def Let_def schwarz_run_def split_def)

lemma csam_integrals_fields:
  "nshell (csam_integrals primary eri s) = nshell s"
  "nbf (csam_integrals primary eri s) = nbf s"
  "max_value (csam_integrals primary eri s) = max_value s"
  "shell_pair_values (csam_integrals primary eri s) = shell_pair_values s"
  "function_pair_values (csam_integrals primary eri s) = function_pair_values s"
  "do_csam (csam_integrals primary eri s) = do_csam s"
  "sieve_cutoff (csam_integrals primary eri s) = sieve_cutoff s"
  "shell_pair_exchange_values (csam_integrals primary eri s) =
     fst (snd (csam_run primary eri (nshell s) (nbf s)))"
  by (simp_all add: csam_integrals_def Let_def split_def)

lemma built_fields:
  "nshell (built primary sv csam eri) = length (shells primary)"
  "nbf (built primary sv csam eri) = basis_nbf primary"
  "max_value (built primary sv csam eri) = fst (schwarz_run primary eri)"
  "shell_pair_values (built primary sv csam eri) = fst (snd (schwarz_run primary eri))"
  "function_pair_values (built primary sv csam eri) = snd (snd (schwarz_run primary eri))"
  "sieve_cutoff (built primary sv csam eri) = sv"
  "do_csam (built primary sv csam eri) = csam"
  "shell_pair_exchange_values (built primary sv True eri) =
     fst (snd (csam_run primary eri (length (shells primary)) (basis_nbf primary)))"
  by (simp_all add: built_def Let_def integrals_fields csam_integrals_fields)

lemma ERISieve_built: "ERISieve primary sv csam eri = set_sieve sv (built primary sv csam eri)"
  by (simp add: ERISieve_def common_init_def Let_def built_def blank_def
                integrals_fields csam_integrals_fields)

lemma schwarz_run_ok: "wf_basis primary \<Longrightarrow> schwarz_ok primary (schwarz_run primary eri)"
  unfolding schwarz_run_def by (intro integrals_loops_ok schwarz_ok_initial)

lemma ERISieve_fields:
  "nshell (ERISieve primary sv csam eri) = length (shells primary)"
  "nbf (ERISieve primary sv csam eri) = basis_nbf primary"
  "max_value (ERISieve primary sv csam eri) = fst (schwarz_run primary eri)"
  "shell_pair_values (ERISieve primary sv csam eri) = fst (snd (schwarz_run primary eri))"
  "function_pair_values (ERISieve primary sv csam eri) = snd (snd (schwarz_run primary eri))"
  "sieve_cutoff (ERISieve primary sv csam eri) = sv"
  "sieve2 (ERISieve primary sv csam eri) = dmul sv sv"
  "do_csam (ERISieve primary sv csam eri) = csam"
  "shell_pair_exchange_values (ERISieve primary sv True eri) =
     fst (snd (csam_run primary eri (length (shells primary)) (basis_nbf primary)))"
  by (simp_all add: ERISieve_built set_sieve_fields built_fields)

lemma schwarz_run_facts:
  assumes "wf_basis primary"
  shows "length (fst (snd (schwarz_run primary eri))) = length (shells primary) * length (shells primary)"
    and "length (snd (snd (schwarz_run primary eri))) = basis_nbf primary * basis_nbf primary"
    and "dle (Fin 0) (fst (schwarz_run primary eri))"
    and "\<forall>v\<in>set (fst (snd (schwarz_run primary eri))).
           dle (Fin 0) v \<and> dle v (fst (schwarz_run primary eri))"
    and "\<forall>v\<in>set (snd (snd (schwarz_run primary eri))).
           dle (Fin 0) v \<and> dle v (fst (schwarz_run primary eri))"
    and "\<forall>P<length (shells primary). \<forall>Q<length (shells primary).
           fst (snd (schwarz_run primary eri)) ! (P * length (shells primary) + Q) =
           fst (snd (schwarz_run primary eri)) ! (Q * length (shells primary) + P)"
    and "block_replicated primary (fst (snd (schwarz_run primary eri)))
           (snd (snd (schwarz_run primary eri)))"
  using schwarz_run_ok [OF assms(1), of eri]
  unfolding schwarz_ok_def schwarz_inv_def
  by (simp_all add: split_def)

lemma csam_run_facts:
  shows "length (fst (snd (csam_run primary eri n m))) = n * n"
    and "\<forall>v\<in>set (fst (snd (csam_run primary eri n m))). v \<noteq> NaN"
    and "\<forall>P<n. \<forall>Q<n. fst (snd (csam_run primary eri n m)) ! (P * n + Q) =
                       fst (snd (csam_run primary eri n m)) ! (Q * n + P)"
  using csam_run_inv [of n primary eri m] unfolding exchange_inv_def
  by (simp_all add: split_def)

lemma dle_not_NaN: "dle a b \<Longrightarrow> a \<noteq> NaN \<and> b \<noteq> NaN"
  by (simp add: dle_def dge_def)

lemma shell_of_list_range:
  "contiguous off shs \<Longrightarrow> off \<le> p \<Longrightarrow> p < off + sum_list (map nfunction shs) \<Longrightarrow>
   shell_of_list shs p < length shs \<and>
   function_index (shs ! shell_of_list shs p) \<le> p \<and>
   p < function_index (shs ! shell_of_list shs p) + nfunction (shs ! shell_of_list shs p)"
proof (induction shs arbitrary: off)
  case Nil
  then show ?case by simp
next
  case (Cons sh shs)
  show ?case
  proof (cases "p < off + nfunction sh")
    case True
    then show ?thesis using Cons.prems by simp
  next
    case False
    then have "contiguous (off + nfunction sh) shs" "off + nfunction sh \<le> p"
      "p < (off + nfunction sh) + sum_list (map nfunction shs)"
      using Cons.prems by simp_all
    from Cons.IH [OF this] False Cons.prems show ?thesis by simp
  qed
qed

lemma shell_of_range:
  assumes "wf_basis primary" and "p < basis_nbf primary"
  shows "shell_of primary p < length (shells primary)"
    and "function_index (shells primary ! shell_of primary p) \<le> p"
    and "p < function_index (shells primary ! shell_of primary p)
             + nfunction (shells primary ! shell_of primary p)"
  using shell_of_list_range [of 0 "shells primary" p] assms
  by (simp_all add: wf_basis_def shell_of_def)

section \<open>The diagonal square roots in csam_integrals\<close>

subsection \<open>Replaying the log\<close>

lemma replay_append:
  "replay W (xs @ ys) = (case replay W xs of None \<Rightarrow> None | Some W' \<Rightarrow> replay W' ys)"
proof (induction xs arbitrary: W)
  case Nil
  then show ?case by simp
next
  case (Cons e xs)
  show ?case
  proof (cases e)
    case (Wr P Q f v)
    show ?thesis unfolding Wr by (simp add: Cons.IH del: fun_upd_apply)
  next
    case (Rd P Q f v)
    show ?thesis unfolding Rd by (simp add: Cons.IH)
  qed
qed

lemma replay_reads:
  "(\<And>e. e \<in> set es \<Longrightarrow> \<exists>P Q f v. e = Rd P Q f v \<and> W f = Some v) \<Longrightarrow> replay W es = Some W"
proof (induction es)
  case Nil
  then show ?case by simp
next
  case (Cons e es)
  obtain P Q f v where "e = Rd P Q f v" "W f = Some v" using Cons.prems [of e] by auto
  then show ?case using Cons by simp
qed

lemma replay_mono: "replay W tr = Some W' \<Longrightarrow> W f = Some v \<Longrightarrow> W' f = Some v"
proof (induction tr arbitrary: W)
  case Nil
  then show ?case by simp
next
  case (Cons e tr)
  show ?case
  proof (cases e)
    case (Wr P Q g w)
    then have g: "W g = None" and r: "replay (W(g \<mapsto> w)) tr = Some W'"
      using Cons.prems by (simp_all split: if_splits)
    have "(W(g \<mapsto> w)) f = Some v" using g Cons.prems(2) by auto
    from Cons.IH [OF r this] show ?thesis .
  next
    case (Rd P Q g w)
    then have r: "replay W tr = Some W'" using Cons.prems by (simp split: if_splits)
    from Cons.IH [OF r Cons.prems(2)] show ?thesis .
  qed
qed

lemma replay_write:
  "replay W tr = Some W' \<Longrightarrow> Wr P Q f v \<in> set tr \<Longrightarrow> W' f = Some v"
proof (induction tr arbitrary: W)
  case Nil
  then show ?case by simp
next
  case (Cons e tr)
  show ?case
  proof (cases e)
    case (Wr P' Q' g w)
    then have r: "replay (W(g \<mapsto> w)) tr = Some W'"
      using Cons.prems by (simp split: if_splits)
    show ?thesis
    proof (cases "Wr P Q f v \<in> set tr")
      case True
      from Cons.IH [OF r True] show ?thesis .
    next
      case False
      then have "g = f" "w = v" using Cons.prems(2) Wr by simp_all
      then show ?thesis using replay_mono [OF r, of f v] by simp
    qed
  next
    case (Rd P' Q' g w)
    then have r: "replay W tr = Some W'" and m: "Wr P Q f v \<in> set tr"
      using Cons.prems by (simp_all split: if_splits)
    from Cons.IH [OF r m] show ?thesis .
  qed
qed

lemma replay_count:
  "replay W tr = Some W' \<Longrightarrow>
   writes_of f tr = (if W' f \<noteq> None \<and> W f = None then 1 else 0)"
proof (induction tr arbitrary: W)
  case Nil
  then show ?case by (auto simp: writes_of_def)
next
  case (Cons e tr)
  show ?case
  proof (cases e)
    case (Wr P Q g w)
    then have g: "W g = None" and r: "replay (W(g \<mapsto> w)) tr = Some W'"
      using Cons.prems by (simp_all split: if_splits)
    have w: "W' g = Some w" using replay_mono [OF r, of g w] by simp
    from Cons.IH [OF r]
    have "writes_of f tr = (if W' f \<noteq> None \<and> (W(g \<mapsto> w)) f = None then 1 else 0)" .
    then show ?thesis using g w Wr by (auto simp: writes_of_def is_write_def)
  next
    case (Rd P Q g w)
    then have r: "replay W tr = Some W'" using Cons.prems by (simp split: if_splits)
    from Cons.IH [OF r] show ?thesis using Rd by (simp add: writes_of_def is_write_def)
  qed
qed

lemma replay_read:
  "replay W tr = Some W' \<Longrightarrow> i < length tr \<Longrightarrow> tr ! i = Rd P Q f v \<Longrightarrow>
   W' f = Some v \<and> (W f \<noteq> None \<or> written_before tr i f)"
proof (induction tr arbitrary: W i)
  case Nil
  then show ?case by simp
next
  case (Cons e tr)
  show ?case
  proof (cases i)
    case 0
    then have e: "e = Rd P Q f v" using Cons.prems by simp
    then have "W f = Some v" "replay W tr = Some W'"
      using Cons.prems(1) by (simp_all split: if_splits)
    then show ?thesis using replay_mono [of W tr W' f v] by simp
  next
    case (Suc j)
    then have j: "j < length tr" "tr ! j = Rd P Q f v" using Cons.prems by simp_all
    show ?thesis
    proof (cases e)
      case (Wr P' Q' g w)
      then have r: "replay (W(g \<mapsto> w)) tr = Some W'"
        using Cons.prems by (simp split: if_splits)
      from Cons.IH [OF r j] show ?thesis using Wr Suc
        by (auto simp: written_before_def is_write_def split: if_splits)
    next
      case (Rd P' Q' g w)
      then have r: "replay W tr = Some W'" using Cons.prems by (simp split: if_splits)
      from Cons.IH [OF r j] show ?thesis using Suc
        by (auto simp: written_before_def)
    qed
  qed
qed

lemma table_upto_Suc:
  "(table_upto primary eri k)(k \<mapsto> diagonal_sqrt primary eri k) = table_upto primary eri (Suc k)"
  by (rule ext) (simp add: table_upto_def)

lemma shell_of_offset:
  assumes "wf_basis primary" and "P < length (shells primary)" and "p < nfunction (shells primary ! P)"
  shows "shell_of primary (function_index (shells primary ! P) + p) = P"
proof -
  define f where "f = function_index (shells primary ! P) + p"
  have f: "f < basis_nbf primary" unfolding f_def by (rule wf_in_range [OF assms])
  note r = shell_of_range [OF assms(1) f]
  define A where "A = shell_of primary f"
  define a where "a = f - function_index (shells primary ! A)"
  have "a < nfunction (shells primary ! A)" "function_index (shells primary ! A) + a = f"
    using r by (simp_all add: a_def A_def)
  then have "A = P \<and> a = p"
    using wf_unique [OF assms(1) r(1) [folded A_def] assms(2) _ assms(3)] by (simp add: f_def)
  then show ?thesis by (simp add: A_def f_def)
qed

lemma diagonal_sqrt_offset:
  assumes "wf_basis primary" and "P < length (shells primary)" and "p < nfunction (shells primary ! P)"
  shows "diagonal_sqrt primary eri (function_index (shells primary ! P) + p) =
         dsqrt (dabs (eri P P P P
           (p * (nfunction (shells primary ! P) * nfunction (shells primary ! P) *
                 nfunction (shells primary ! P) + nfunction (shells primary ! P)) +
            p * (nfunction (shells primary ! P) * nfunction (shells primary ! P) + 1))))"
  by (simp add: diagonal_sqrt_def Let_def shell_of_offset [OF assms])

subsection \<open>The array and the log through the loops\<close>

lemma diag_step:
  assumes wf: "wf_basis primary" and P: "P < length (shells primary)"
    and k: "k < nfunction (shells primary ! P)"
    and inv: "diag_inv primary eri (function_index (shells primary ! P) + k) (fsqrt, alog)"
    and v: "v = dsqrt (dabs (eri P P P P
           (k * (nfunction (shells primary ! P) * nfunction (shells primary ! P) *
                 nfunction (shells primary ! P) + nfunction (shells primary ! P)) +
            k * (nfunction (shells primary ! P) * nfunction (shells primary ! P) + 1))))"
  shows "diag_inv primary eri (function_index (shells primary ! P) + Suc k)
           (fsqrt[function_index (shells primary ! P) + k := v],
            alog @ [Wr P P (function_index (shells primary ! P) + k) v])"
proof -
  define oP where "oP = function_index (shells primary ! P)"
  have i: "length fsqrt = basis_nbf primary"
      "\<forall>f<oP + k. fsqrt ! f = diagonal_sqrt primary eri f"
      "replay Map.empty alog = Some (table_upto primary eri (oP + k))"
      "writes_diagonal primary alog"
    using inv by (simp_all add: diag_inv_def oP_def)
  have vt: "v = diagonal_sqrt primary eri (oP + k)"
    unfolding v oP_def by (rule diagonal_sqrt_offset [OF wf P k, symmetric])
  have r: "oP + k < length fsqrt" using wf_in_range [OF wf P k] i(1) by (simp add: oP_def)
  have a: "\<forall>f<oP + Suc k. fsqrt[oP + k := v] ! f = diagonal_sqrt primary eri f"
  proof (intro allI impI)
    fix f assume "f < oP + Suc k"
    then show "fsqrt[oP + k := v] ! f = diagonal_sqrt primary eri f"
      using i(2) r vt by (cases "f = oP + k") (simp_all add: nth_list_update)
  qed
  have "table_upto primary eri (oP + k) (oP + k) = None" by (simp add: table_upto_def)
  then have b: "replay Map.empty (alog @ [Wr P P (oP + k) v]) =
                Some (table_upto primary eri (oP + Suc k))"
    using table_upto_Suc [of primary eri "oP + k"]
    by (simp add: replay_append i(3) vt del: fun_upd_apply)
  have c: "writes_diagonal primary (alog @ [Wr P P (oP + k) v])"
    using i(4) P k by (auto simp: writes_diagonal_def oP_def)
  show ?thesis using i(1) a b c by (simp add: diag_inv_def oP_def)
qed

lemma diag_fold:
  assumes wf: "wf_basis primary" and P: "P < length (shells primary)"
    and inv: "diag_inv primary eri (function_index (shells primary ! P)) st"
    and k: "k \<le> nfunction (shells primary ! P)"
  shows "diag_inv primary eri (function_index (shells primary ! P) + k)
           (fold (\<lambda>p (fsqrt, alog).
                    let v = dsqrt (dabs (eri P P P P
                          (p * (nfunction (shells primary ! P) * nfunction (shells primary ! P) *
                                nfunction (shells primary ! P) + nfunction (shells primary ! P)) +
                           p * (nfunction (shells primary ! P) * nfunction (shells primary ! P) + 1))))
                    in (fsqrt[function_index (shells primary ! P) + p := v],
                        alog @ [Wr P P (function_index (shells primary ! P) + p) v]))
              [0..<k] st)"
proof -
  define g where "g = (\<lambda>p (fsqrt, alog).
                    let v = dsqrt (dabs (eri P P P P
                          (p * (nfunction (shells primary ! P) * nfunction (shells primary ! P) *
                                nfunction (shells primary ! P) + nfunction (shells primary ! P)) +
                           p * (nfunction (shells primary ! P) * nfunction (shells primary ! P) + 1))))
                    in (fsqrt[function_index (shells primary ! P) + p := v],
                        alog @ [Wr P P (function_index (shells primary ! P) + p) v]))"
  have "j \<le> nfunction (shells primary ! P) \<Longrightarrow>
        diag_inv primary eri (function_index (shells primary ! P) + j) (fold g [0..<j] st)" for j
  proof (induction j)
    case 0
    then show ?case using inv by simp
  next
    case (Suc j)
    then have j: "j < nfunction (shells primary ! P)" by simp
    obtain fsqrt alog where st': "fold g [0..<j] st = (fsqrt, alog)" by (cases "fold g [0..<j] st")
    have IH: "diag_inv primary eri (function_index (shells primary ! P) + j) (fsqrt, alog)"
      using Suc st' by simp
    have "fold g [0..<Suc j] st = g j (fsqrt, alog)" by (simp add: st')
    also have "\<dots> = (fsqrt[function_index (shells primary ! P) + j :=
                 dsqrt (dabs (eri P P P P
                          (j * (nfunction (shells primary ! P) * nfunction (shells primary ! P) *
                                nfunction (shells primary ! P) + nfunction (shells primary ! P)) +
                           j * (nfunction (shells primary ! P) * nfunction (shells primary ! P) + 1))))],
              alog @ [Wr P P (function_index (shells primary ! P) + j)
                 (dsqrt (dabs (eri P P P P
                          (j * (nfunction (shells primary ! P) * nfunction (shells primary ! P) *
                                nfunction (shells primary ! P) + nfunction (shells primary ! P)) +
                           j * (nfunction (shells primary ! P) * nfunction (shells primary ! P) + 1)))))])"
      unfolding g_def Let_def prod.case ..
    finally show ?case using diag_step [OF wf P j IH refl] by simp
  qed
  from this [OF k] show ?thesis unfolding g_def .
qed

lemma csam_diagonal_inv:
  assumes "wf_basis primary" and "P < length (shells primary)"
    and "diag_inv primary eri (function_index (shells primary ! P)) st"
  shows "diag_inv primary eri
           (function_index (shells primary ! P) + nfunction (shells primary ! P))
           (csam_diagonal (eri P P P P) P P (nfunction (shells primary ! P))
              (function_index (shells primary ! P)) st)"
  unfolding csam_diagonal_def by (rule diag_fold [OF assms order_refl])

lemma csam_max_log:
  "snd (csam_max buffer fsqrt P Q nP nQ oP oQ st) =
     snd st @ concat (map (\<lambda>p. concat (map (\<lambda>q.
        [Rd P Q (p + oP) (fsqrt ! (p + oP)), Rd P Q (q + oQ) (fsqrt ! (q + oQ))]) [0..<nQ])) [0..<nP])"
  unfolding csam_max_def
  by (rule fold_log, rule fold_log) (simp add: split_def Let_def)

lemma csam_max_inv:
  assumes inv: "diag_inv primary eri K (fsqrt, alog)" and "oP + nP \<le> K" and "oQ + nQ \<le> K"
  shows "diag_inv primary eri K (fsqrt, snd (csam_max buffer fsqrt P Q nP nQ oP oQ (mv, alog)))"
proof -
  define rd where "rd = concat (map (\<lambda>p. concat (map (\<lambda>q.
        [Rd P Q (p + oP) (fsqrt ! (p + oP)), Rd P Q (q + oQ) (fsqrt ! (q + oQ))]) [0..<nQ])) [0..<nP])"
  have lg: "snd (csam_max buffer fsqrt P Q nP nQ oP oQ (mv, alog)) = alog @ rd"
    by (simp add: csam_max_log rd_def)
  have i: "length fsqrt = basis_nbf primary"
      "\<forall>f<K. fsqrt ! f = diagonal_sqrt primary eri f"
      "replay Map.empty alog = Some (table_upto primary eri K)"
      "writes_diagonal primary alog"
    using inv by (simp_all add: diag_inv_def)
  have e: "\<exists>f<K. e = Rd P Q f (fsqrt ! f)" if "e \<in> set rd" for e
  proof -
    have "(\<exists>p<nP. e = Rd P Q (p + oP) (fsqrt ! (p + oP))) \<or>
          (\<exists>q<nQ. e = Rd P Q (q + oQ) (fsqrt ! (q + oQ)))"
      using that by (auto simp: rd_def split: if_splits)
    then show ?thesis using assms(2,3) by (auto intro: exI [where x = "_ + oP"] exI [where x = "_ + oQ"])
  qed
  have "replay (table_upto primary eri K) rd = Some (table_upto primary eri K)"
  proof (rule replay_reads)
    fix x assume "x \<in> set rd"
    then obtain f where "f < K" "x = Rd P Q f (fsqrt ! f)" using e by blast
    then show "\<exists>P Q f v. x = Rd P Q f v \<and> table_upto primary eri K f = Some v"
      using i(2) by (simp add: table_upto_def)
  qed
  then have b: "replay Map.empty (alog @ rd) = Some (table_upto primary eri K)"
    by (simp add: replay_append i(3))
  have c: "writes_diagonal primary (alog @ rd)"
    using i(4) e unfolding writes_diagonal_def by fastforce
  show ?thesis unfolding lg using i(1,2) b c by (simp add: diag_inv_def)
qed

lemma csam_body_sqrt:
  "fst (csam_body primary eri n P Q (fsqrt, X, alog)) =
     fst (if Q = P then csam_diagonal (eri P P Q Q) P Q (nfunction (shells primary ! P))
                          (function_index (shells primary ! P)) (fsqrt, alog)
          else (fsqrt, alog))"
  "snd (snd (csam_body primary eri n P Q (fsqrt, X, alog))) =
     snd (csam_max (eri P P Q Q)
            (fst (if Q = P then csam_diagonal (eri P P Q Q) P Q (nfunction (shells primary ! P))
                                 (function_index (shells primary ! P)) (fsqrt, alog)
                 else (fsqrt, alog)))
            P Q (nfunction (shells primary ! P)) (nfunction (shells primary ! Q))
            (function_index (shells primary ! P)) (function_index (shells primary ! Q))
            (Fin 0,
             snd (if Q = P then csam_diagonal (eri P P Q Q) P Q (nfunction (shells primary ! P))
                                 (function_index (shells primary ! P)) (fsqrt, alog)
                  else (fsqrt, alog))))"
  by (simp_all add: csam_body_def Let_def split_def)

lemma csam_body_diag:
  assumes wf: "wf_basis primary" and P: "P < length (shells primary)"
    and inv: "sqrt_inv primary eri (start (shells primary) P) st"
  shows "sqrt_inv primary eri (start (shells primary) (Suc P)) (csam_body primary eri n P P st)"
proof -
  obtain fsqrt X alog where st: "st = (fsqrt, X, alog)" by (cases st) auto
  define oP where "oP = function_index (shells primary ! P)"
  define nP where "nP = nfunction (shells primary ! P)"
  have oP: "start (shells primary) P = oP" using wf_offset [OF wf P] by (simp add: oP_def)
  have sP: "start (shells primary) (Suc P) = oP + nP" using P by (simp add: start_Suc oP nP_def)
  define d where "d = csam_diagonal (eri P P P P) P P nP oP (fsqrt, alog)"
  have "diag_inv primary eri oP (fsqrt, alog)" using inv by (simp add: sqrt_inv_def st oP)
  then have d: "diag_inv primary eri (oP + nP) d"
    unfolding d_def oP_def nP_def by (intro csam_diagonal_inv wf P)
  obtain f1 l1 where d1: "d = (f1, l1)" by (cases d)
  have "diag_inv primary eri (oP + nP)
          (f1, snd (csam_max (eri P P P P) f1 P P nP nP oP oP (Fin 0, l1)))"
    by (rule csam_max_inv) (use d d1 in simp_all)
  then show ?thesis
    unfolding st sqrt_inv_def sP
    by (simp add: split_def csam_body_sqrt d1 flip: oP_def nP_def d_def)
qed

lemma csam_body_off_diag:
  assumes wf: "wf_basis primary" and P: "P < length (shells primary)" and Q: "Q < P"
    and inv: "sqrt_inv primary eri (start (shells primary) (Suc P)) st"
  shows "sqrt_inv primary eri (start (shells primary) (Suc P)) (csam_body primary eri n P Q st)"
proof -
  obtain fsqrt X alog where st: "st = (fsqrt, X, alog)" by (cases st) auto
  define oP where "oP = function_index (shells primary ! P)"
  define nP where "nP = nfunction (shells primary ! P)"
  define oQ where "oQ = function_index (shells primary ! Q)"
  define nQ where "nQ = nfunction (shells primary ! Q)"
  have oP: "start (shells primary) P = oP" using wf_offset [OF wf P] by (simp add: oP_def)
  have sP: "start (shells primary) (Suc P) = oP + nP" using P by (simp add: start_Suc oP nP_def)
  have le: "oQ + nQ \<le> oP + nP" using wf_range_end [OF wf Q P] by (simp add: oQ_def nQ_def oP_def)
  have i: "diag_inv primary eri (oP + nP) (fsqrt, alog)" using inv by (simp add: sqrt_inv_def st sP)
  have "diag_inv primary eri (oP + nP)
          (fsqrt, snd (csam_max (eri P P Q Q) fsqrt P Q nP nQ oP oQ (Fin 0, alog)))"
    by (rule csam_max_inv [OF i _ le]) simp
  then show ?thesis
    unfolding st sqrt_inv_def sP using Q
    by (simp add: split_def csam_body_sqrt flip: oP_def nP_def oQ_def nQ_def)
qed

lemma csam_row_sqrt:
  assumes wf: "wf_basis primary" and P: "P < length (shells primary)"
    and inv: "sqrt_inv primary eri (start (shells primary) P) st"
  shows "sqrt_inv primary eri (start (shells primary) (Suc P))
           (fold (csam_body primary eri n P) (rev [0..<Suc P]) st)"
proof -
  have "fold (csam_body primary eri n P) (rev [0..<Suc P]) st =
        fold (csam_body primary eri n P) (rev [0..<P]) (csam_body primary eri n P P st)"
    by simp
  also have "sqrt_inv primary eri (start (shells primary) (Suc P)) \<dots>"
  proof (rule fold_invariant [where Q = "\<lambda>Q. Q < P"])
    show "\<And>x. x \<in> set (rev [0..<P]) \<Longrightarrow> x < P" by simp
    show "sqrt_inv primary eri (start (shells primary) (Suc P)) (csam_body primary eri n P P st)"
      by (rule csam_body_diag [OF wf P inv])
    show "\<And>Q s. Q < P \<Longrightarrow> sqrt_inv primary eri (start (shells primary) (Suc P)) s \<Longrightarrow>
            sqrt_inv primary eri (start (shells primary) (Suc P)) (csam_body primary eri n P Q s)"
      by (rule csam_body_off_diag [OF wf P])
  qed
  finally show ?thesis .
qed

lemma csam_rows_sqrt:
  assumes wf: "wf_basis primary" and inv: "sqrt_inv primary eri 0 st"
    and k: "k \<le> length (shells primary)"
  shows "sqrt_inv primary eri (start (shells primary) k)
           (fold (\<lambda>P. fold (csam_body primary eri n P) (rev [0..<Suc P])) [0..<k] st)"
proof -
  define g where "g = (\<lambda>P. fold (csam_body primary eri n P) (rev [0..<Suc P]))"
  have "j \<le> length (shells primary) \<Longrightarrow>
        sqrt_inv primary eri (start (shells primary) j) (fold g [0..<j] st)" for j
  proof (induction j)
    case 0
    then show ?case using inv by (simp add: start_def)
  next
    case (Suc j)
    then have j: "j < length (shells primary)"
      and IH: "sqrt_inv primary eri (start (shells primary) j) (fold g [0..<j] st)" by simp_all
    have "fold g [0..<Suc j] st = g j (fold g [0..<j] st)" by simp
    also have "sqrt_inv primary eri (start (shells primary) (Suc j)) \<dots>"
      unfolding g_def by (rule csam_row_sqrt [OF wf j IH [unfolded g_def]])
    finally show ?case .
  qed
  from this [OF k] show ?thesis unfolding g_def .
qed

lemma csam_run_sqrt:
  assumes "wf_basis primary"
  shows "sqrt_inv primary eri (basis_nbf primary)
           (csam_run primary eri (length (shells primary)) (basis_nbf primary))"
proof -
  have "sqrt_inv primary eri 0
          (replicate (basis_nbf primary) (Fin 0),
           replicate (length (shells primary) * length (shells primary)) (Fin 0), [])"
    by (simp add: sqrt_inv_def diag_inv_def writes_diagonal_def table_upto_def)
  from csam_rows_sqrt [OF assms this order_refl, of "length (shells primary)"] assms
  show ?thesis
    by (simp add: csam_run_def csam_loops_def start_length wf_basis_def)
qed

lemma csam_run_sqrt_facts:
  assumes "wf_basis primary"
  shows "length (fst (csam_run primary eri (length (shells primary)) (basis_nbf primary)))
           = basis_nbf primary"
    and "\<forall>f<basis_nbf primary.
           fst (csam_run primary eri (length (shells primary)) (basis_nbf primary)) ! f =
           diagonal_sqrt primary eri f"
    and "replay Map.empty (csam_trace primary eri) =
           Some (table_upto primary eri (basis_nbf primary))"
    and "writes_diagonal primary (csam_trace primary eri)"
  using csam_run_sqrt [OF assms, of eri]
  by (simp_all add: sqrt_inv_def diag_inv_def split_def csam_trace_def)

lemma ERISieve_function_sqrt:
  "function_sqrt (ERISieve primary sv True eri) =
     fst (csam_run primary eri (length (shells primary)) (basis_nbf primary))"
  by (simp add: ERISieve_built set_sieve_fields built_def Let_def integrals_fields
        csam_integrals_def split_def)

subsection \<open>The exchange matrix through the loops\<close>

text \<open>
  The divisors that \<^verbatim>\<open>csam_integrals\<close> reads are the diagonal square roots, so the
  value it stores for a pair is the exchange bound of the pair.
\<close>

lemma fold_fst:
  assumes "\<And>x a l. fst (g x (a, l)) = h x a"
  shows "fst (fold g xs (a, l)) = fold h xs a"
proof (induction xs arbitrary: a l)
  case Nil
  then show ?case by simp
next
  case (Cons x xs)
  have "fold g (x # xs) (a, l) = fold g xs (fst (g x (a, l)), snd (g x (a, l)))" by simp
  then show ?case using Cons.IH assms by simp
qed

lemma csam_max_fst:
  "fst (csam_max buffer fsqrt P Q nP nQ oP oQ (mv, lg)) =
     fold (\<lambda>p. fold (\<lambda>q max_val.
             dmax max_val
               (ddiv (dabs (buffer (p * nQ * nQ * (nP + 1) + q * (nQ + 1))))
                     (dmul (fsqrt ! (p + oP)) (fsqrt ! (q + oQ)))))
           [0..<nQ])
       [0..<nP] mv"
  unfolding csam_max_def
  by (rule fold_fst, rule fold_fst) (simp add: Let_def)

lemma csam_max_value:
  assumes inv: "diag_inv primary eri K (fsqrt, lg)"
    and "function_index (shells primary ! P) + nfunction (shells primary ! P) \<le> K"
    and "function_index (shells primary ! Q) + nfunction (shells primary ! Q) \<le> K"
  shows "fst (csam_max (eri P P Q Q) fsqrt P Q
                (nfunction (shells primary ! P)) (nfunction (shells primary ! Q))
                (function_index (shells primary ! P)) (function_index (shells primary ! Q))
                (Fin 0, lg)) = exchange_bound primary eri P Q"
proof -
  have t: "\<forall>f<K. fsqrt ! f = diagonal_sqrt primary eri f"
    using inv by (simp add: diag_inv_def)
  show ?thesis
    unfolding csam_max_fst exchange_bound_def Let_def
  proof (rule fold_cong [OF refl refl], rule ext, rule fold_cong [OF refl refl], rule ext)
    fix p q mv
    assume "p \<in> set [0..<nfunction (shells primary ! P)]"
       and "q \<in> set [0..<nfunction (shells primary ! Q)]"
    then have "p + function_index (shells primary ! P) < K"
      "q + function_index (shells primary ! Q) < K"
      using assms(2,3) by simp_all
    then show "dmax mv (ddiv (dabs (eri P P Q Q
            (p * nfunction (shells primary ! Q) * nfunction (shells primary ! Q) *
             (nfunction (shells primary ! P) + 1) + q * (nfunction (shells primary ! Q) + 1))))
          (dmul (fsqrt ! (p + function_index (shells primary ! P)))
                (fsqrt ! (q + function_index (shells primary ! Q))))) =
        dmax mv (ddiv (dabs (eri P P Q Q
            (p * nfunction (shells primary ! Q) * nfunction (shells primary ! Q) *
             (nfunction (shells primary ! P) + 1) + q * (nfunction (shells primary ! Q) + 1))))
          (dmul (diagonal_sqrt primary eri (p + function_index (shells primary ! P)))
                (diagonal_sqrt primary eri (q + function_index (shells primary ! Q)))))"
      using t by simp
  qed
qed

lemma exch_done_update:
  assumes d: "exch_done xb n Pr X" and P: "P < n" and Q: "Q \<le> P" and v: "v = xb P Q"
  shows "exch_done xb n (insert (P, Q) Pr) (X[Q * n + P := v, P * n + Q := v])"
proof -
  have len: "length X = n * n" and sub: "Pr \<subseteq> {(A, B). B \<le> A \<and> A < n}"
    and old: "\<And>A B. (A, B) \<in> Pr \<Longrightarrow> X ! (A * n + B) = xb A B \<and> X ! (B * n + A) = xb A B"
    using d by (auto simp: exch_done_def)
  have new: "X[Q * n + P := v, P * n + Q := v] ! (A * n + B) = xb A B \<and>
             X[Q * n + P := v, P * n + Q := v] ! (B * n + A) = xb A B"
    if m: "(A, B) \<in> insert (P, Q) Pr" for A B
  proof -
    have AB: "B \<le> A" "A < n" "B < n" using m sub P Q by auto
    have i: "A * n + B < length X" "B * n + A < length X"
      using AB len by (simp_all add: idx_less)
    have Qn: "Q < n" using P Q by simp
    show ?thesis
    proof (cases "(A, B) = (P, Q)")
      case True
      then show ?thesis unfolding nth_update2 [OF i(1)] nth_update2 [OF i(2)]
        using v by simp
    next
      case False
      then have "(A, B) \<in> Pr" using m by auto
      note o = old [OF this]
      have n1: "\<not> (A * n + B = Q * n + P \<or> A * n + B = P * n + Q)"
        using False AB P Q Qn by (auto simp: idx_inj)
      have n2: "\<not> (B * n + A = Q * n + P \<or> B * n + A = P * n + Q)"
        using False AB P Q Qn by (auto simp: idx_inj)
      show ?thesis unfolding nth_update2 [OF i(1)] nth_update2 [OF i(2)]
        using n1 n2 o by simp
    qed
  qed
  show ?thesis unfolding exch_done_def using len sub P Q new by auto
qed

lemma csam_body_exchange:
  "fst (snd (csam_body primary eri n P Q (fsqrt, X, alog))) =
     X[Q * n + P :=
         fst (csam_max (eri P P Q Q)
            (fst (if Q = P then csam_diagonal (eri P P Q Q) P Q (nfunction (shells primary ! P))
                                 (function_index (shells primary ! P)) (fsqrt, alog)
                 else (fsqrt, alog)))
            P Q (nfunction (shells primary ! P)) (nfunction (shells primary ! Q))
            (function_index (shells primary ! P)) (function_index (shells primary ! Q))
            (Fin 0,
             snd (if Q = P then csam_diagonal (eri P P Q Q) P Q (nfunction (shells primary ! P))
                                 (function_index (shells primary ! P)) (fsqrt, alog)
                  else (fsqrt, alog)))),
       P * n + Q :=
         fst (csam_max (eri P P Q Q)
            (fst (if Q = P then csam_diagonal (eri P P Q Q) P Q (nfunction (shells primary ! P))
                                 (function_index (shells primary ! P)) (fsqrt, alog)
                 else (fsqrt, alog)))
            P Q (nfunction (shells primary ! P)) (nfunction (shells primary ! Q))
            (function_index (shells primary ! P)) (function_index (shells primary ! Q))
            (Fin 0,
             snd (if Q = P then csam_diagonal (eri P P Q Q) P Q (nfunction (shells primary ! P))
                                 (function_index (shells primary ! P)) (fsqrt, alog)
                  else (fsqrt, alog))))]"
  by (simp add: csam_body_def Let_def split_def)

lemma csam_body_inv_diag:
  assumes wf: "wf_basis primary" and P: "P < length (shells primary)"
    and inv: "csam_inv primary eri (start (shells primary) P) Pr st"
  shows "csam_inv primary eri (start (shells primary) (Suc P)) (insert (P, P) Pr)
           (csam_body primary eri (length (shells primary)) P P st)"
proof -
  obtain fsqrt X alog where st: "st = (fsqrt, X, alog)" by (cases st) auto
  define oP where "oP = function_index (shells primary ! P)"
  define nP where "nP = nfunction (shells primary ! P)"
  have oP: "start (shells primary) P = oP" using wf_offset [OF wf P] by (simp add: oP_def)
  have s: "sqrt_inv primary eri (start (shells primary) P) st"
    and x: "exch_done (exchange_bound primary eri) (length (shells primary)) Pr X"
    using inv by (simp_all add: csam_inv_def st)
  define d where "d = csam_diagonal (eri P P P P) P P nP oP (fsqrt, alog)"
  have "diag_inv primary eri oP (fsqrt, alog)" using s by (simp add: sqrt_inv_def st oP)
  then have d: "diag_inv primary eri (oP + nP) d"
    unfolding d_def oP_def nP_def by (intro csam_diagonal_inv wf P)
  obtain f1 l1 where d1: "d = (f1, l1)" by (cases d)
  have v: "fst (csam_max (eri P P P P) f1 P P nP nP oP oP (Fin 0, l1)) =
           exchange_bound primary eri P P"
    unfolding oP_def nP_def
    by (rule csam_max_value [where K = "oP + nP"]) (use d d1 in \<open>simp_all add: oP_def nP_def\<close>)
  have "exch_done (exchange_bound primary eri) (length (shells primary)) (insert (P, P) Pr)
          (fst (snd (csam_body primary eri (length (shells primary)) P P st)))"
    unfolding st csam_body_exchange
    by (rule exch_done_update [OF x P order_refl])
       (simp add: v d1 flip: oP_def nP_def d_def)
  then show ?thesis
    using csam_body_diag [OF wf P s] by (simp add: csam_inv_def)
qed

lemma csam_body_inv_off:
  assumes wf: "wf_basis primary" and P: "P < length (shells primary)" and Q: "Q < P"
    and inv: "csam_inv primary eri (start (shells primary) (Suc P)) Pr st"
  shows "csam_inv primary eri (start (shells primary) (Suc P)) (insert (P, Q) Pr)
           (csam_body primary eri (length (shells primary)) P Q st)"
proof -
  obtain fsqrt X alog where st: "st = (fsqrt, X, alog)" by (cases st) auto
  define oP where "oP = function_index (shells primary ! P)"
  define nP where "nP = nfunction (shells primary ! P)"
  have oP: "start (shells primary) P = oP" using wf_offset [OF wf P] by (simp add: oP_def)
  have sP: "start (shells primary) (Suc P) = oP + nP" using P by (simp add: start_Suc oP nP_def)
  have le: "function_index (shells primary ! Q) + nfunction (shells primary ! Q) \<le> oP + nP"
    using wf_range_end [OF wf Q P] by (simp add: oP_def)
  have s: "sqrt_inv primary eri (start (shells primary) (Suc P)) st"
    and x: "exch_done (exchange_bound primary eri) (length (shells primary)) Pr X"
    using inv by (simp_all add: csam_inv_def st)
  have i: "diag_inv primary eri (oP + nP) (fsqrt, alog)" using s by (simp add: sqrt_inv_def st sP)
  have v: "fst (csam_max (eri P P Q Q) fsqrt P Q nP (nfunction (shells primary ! Q))
                  oP (function_index (shells primary ! Q)) (Fin 0, alog)) =
           exchange_bound primary eri P Q"
    unfolding oP_def nP_def
    by (rule csam_max_value [where K = "oP + nP"]) (use i le in \<open>simp_all add: oP_def nP_def\<close>)
  have "exch_done (exchange_bound primary eri) (length (shells primary)) (insert (P, Q) Pr)
          (fst (snd (csam_body primary eri (length (shells primary)) P Q st)))"
    unfolding st csam_body_exchange
    by (rule exch_done_update [OF x P]) (use Q in \<open>simp_all add: v flip: oP_def nP_def\<close>)
  then show ?thesis
    using csam_body_off_diag [OF wf P Q s] by (simp add: csam_inv_def)
qed

lemma csam_inner_inv:
  assumes wf: "wf_basis primary" and P: "P < length (shells primary)"
  shows "(\<And>Q. Q \<in> set qs \<Longrightarrow> Q < P) \<Longrightarrow>
         csam_inv primary eri (start (shells primary) (Suc P)) Pr st \<Longrightarrow>
         csam_inv primary eri (start (shells primary) (Suc P)) (Pr \<union> Pair P ` set qs)
           (fold (csam_body primary eri (length (shells primary)) P) qs st)"
proof (induction qs arbitrary: Pr st)
  case Nil
  then show ?case by simp
next
  case (Cons Q qs)
  have Q: "Q < P" using Cons.prems(1) by simp
  have "csam_inv primary eri (start (shells primary) (Suc P)) (insert (P, Q) Pr \<union> Pair P ` set qs)
          (fold (csam_body primary eri (length (shells primary)) P) qs
             (csam_body primary eri (length (shells primary)) P Q st))"
    by (rule Cons.IH) (use Cons.prems csam_body_inv_off [OF wf P Q] in auto)
  moreover have "insert (P, Q) Pr \<union> Pair P ` set qs = Pr \<union> Pair P ` set (Q # qs)" by auto
  ultimately show ?case by simp
qed

lemma csam_row_inv:
  assumes wf: "wf_basis primary" and P: "P < length (shells primary)"
    and inv: "csam_inv primary eri (start (shells primary) P) {(A, B). B \<le> A \<and> A < P} st"
  shows "csam_inv primary eri (start (shells primary) (Suc P)) {(A, B). B \<le> A \<and> A < Suc P}
           (fold (csam_body primary eri (length (shells primary)) P) (rev [0..<Suc P]) st)"
proof -
  have "fold (csam_body primary eri (length (shells primary)) P) (rev [0..<Suc P]) st =
        fold (csam_body primary eri (length (shells primary)) P) (rev [0..<P])
          (csam_body primary eri (length (shells primary)) P P st)"
    by simp
  moreover have "csam_inv primary eri (start (shells primary) (Suc P))
          (insert (P, P) {(A, B). B \<le> A \<and> A < P} \<union> Pair P ` set (rev [0..<P]))
          (fold (csam_body primary eri (length (shells primary)) P) (rev [0..<P])
             (csam_body primary eri (length (shells primary)) P P st))"
    by (rule csam_inner_inv [OF wf P]) (use csam_body_inv_diag [OF wf P inv] in simp_all)
  moreover have "insert (P, P) {(A, B). B \<le> A \<and> A < P} \<union> Pair P ` set (rev [0..<P]) =
        {(A, B). B \<le> A \<and> A < Suc P}"
    by (auto simp: less_Suc_eq le_less)
  ultimately show ?thesis by simp
qed

lemma csam_rows_inv:
  assumes wf: "wf_basis primary" and inv: "csam_inv primary eri 0 {} st"
    and k: "k \<le> length (shells primary)"
  shows "csam_inv primary eri (start (shells primary) k) {(A, B). B \<le> A \<and> A < k}
           (fold (\<lambda>P. fold (csam_body primary eri (length (shells primary)) P) (rev [0..<Suc P]))
              [0..<k] st)"
proof -
  define g where "g = (\<lambda>P. fold (csam_body primary eri (length (shells primary)) P) (rev [0..<Suc P]))"
  have "j \<le> length (shells primary) \<Longrightarrow>
        csam_inv primary eri (start (shells primary) j) {(A, B). B \<le> A \<and> A < j}
          (fold g [0..<j] st)" for j
  proof (induction j)
    case 0
    then show ?case using inv by (simp add: start_def)
  next
    case (Suc j)
    then have j: "j < length (shells primary)"
      and IH: "csam_inv primary eri (start (shells primary) j) {(A, B). B \<le> A \<and> A < j}
                 (fold g [0..<j] st)" by simp_all
    have "fold g [0..<Suc j] st = g j (fold g [0..<j] st)" by simp
    moreover have "csam_inv primary eri (start (shells primary) (Suc j))
          {(A, B). B \<le> A \<and> A < Suc j} (g j (fold g [0..<j] st))"
      unfolding g_def by (rule csam_row_inv [OF wf j IH [unfolded g_def]])
    ultimately show ?case by simp
  qed
  from this [OF k] show ?thesis unfolding g_def .
qed

lemma csam_run_inv_full:
  assumes "wf_basis primary"
  shows "csam_inv primary eri (basis_nbf primary)
           {(A, B). B \<le> A \<and> A < length (shells primary)}
           (csam_run primary eri (length (shells primary)) (basis_nbf primary))"
proof -
  have "csam_inv primary eri 0 {}
          (replicate (basis_nbf primary) (Fin 0),
           replicate (length (shells primary) * length (shells primary)) (Fin 0), [])"
    by (simp add: csam_inv_def exch_done_def sqrt_inv_def diag_inv_def writes_diagonal_def
          table_upto_def)
  from csam_rows_inv [OF assms this order_refl] assms
  show ?thesis
    by (simp add: csam_run_def csam_loops_def start_length wf_basis_def)
qed

lemma csam_run_exchange:
  assumes "wf_basis primary" and "P < length (shells primary)" and "Q \<le> P"
  shows "fst (snd (csam_run primary eri (length (shells primary)) (basis_nbf primary))) !
           (P * length (shells primary) + Q) = exchange_bound primary eri P Q"
    and "fst (snd (csam_run primary eri (length (shells primary)) (basis_nbf primary))) !
           (Q * length (shells primary) + P) = exchange_bound primary eri P Q"
  using csam_run_inv_full [OF assms(1), of eri] assms(2,3)
  by (auto simp: csam_inv_def exch_done_def)

section \<open>Thresholds\<close>

subsection \<open>A larger threshold keeps less\<close>

lemma cutoff_mono:
  assumes "dle (Fin 0) m" and "dle (Fin 0) v" and "dle v m"
    and "dle (Fin 0) t1" and "dlt t1 t2"
    and "dge v (ddiv (dmul t2 t2) m)"
  shows "dge v (ddiv (dmul t1 t1) m)"
proof (cases m)
  case (Fin m')
  show ?thesis
  proof (cases "m' = 0")
    case True
    then show ?thesis using assms Fin
      by (cases v; cases t1; cases t2)
         (simp_all add: dle_def dge_def signed_inf_def split: if_splits)
  next
    case False
    then have m': "0 < m'" using assms(1) Fin by (simp add: dle_def dge_def)
    show ?thesis
    proof (cases t1)
      case t1: (Fin a)
      then have a: "0 \<le> a" using assms(4) by (simp add: dle_def dge_def)
      show ?thesis
      proof (cases t2)
        case t2: (Fin b)
        then have "a < b" using assms(5) t1 by simp
        then have "a * a \<le> b * b" using a by (intro mult_mono) simp_all
        then have "a * a / m' \<le> b * b / m'" using m' by (simp add: divide_right_mono)
        then show ?thesis using assms(6) Fin t1 t2 False
          by (cases v) (simp_all add: dge_def)
      next
        case PInf
        then show ?thesis using assms Fin t1 False
          by (cases v) (simp_all add: dle_def dge_def signed_inf_def)
      qed (use assms t1 in simp_all)
    qed (use assms in \<open>simp_all add: dle_def dge_def\<close>)
  qed
next
  case PInf
  then show ?thesis using assms
    by (cases v; cases t1; cases t2)
       (simp_all add: dle_def dge_def signed_inf_def split: if_splits)
qed (use assms in \<open>simp_all add: dle_def dge_def\<close>)

lemma filter_mono_set:
  "(\<And>x. x \<in> set xs \<Longrightarrow> P x \<Longrightarrow> Q x) \<Longrightarrow> set (filter P xs) \<subseteq> set (filter Q xs)"
  by auto

lemma pairs_shrink:
  assumes len: "length vals = n * n" and mx: "dle (Fin 0) m"
    and b: "\<forall>v\<in>set vals. dle (Fin 0) v \<and> dle v m"
    and t: "dle (Fin 0) t1" "dlt t1 t2"
  shows "set (filter (significant vals n (ddiv (dmul t2 t2) m)) (tri n))
           \<subseteq> set (filter (significant vals n (ddiv (dmul t1 t1) m)) (tri n))"
proof (rule filter_mono_set)
  fix x assume x: "x \<in> set (tri n)" and s2: "significant vals n (ddiv (dmul t2 t2) m) x"
  obtain M N where MN: "x = (M, N)" by (cases x)
  have "N \<le> M" "M < n" using x by (simp_all add: MN set_tri)
  then have "M * n + N < length vals" using len by (simp add: idx_less)
  then have "vals ! (M * n + N) \<in> set vals" by simp
  then have "dle (Fin 0) (vals ! (M * n + N))" "dle (vals ! (M * n + N)) m" using b by simp_all
  from cutoff_mono [OF mx this t] s2
  show "significant vals n (ddiv (dmul t1 t1) m) x" by (simp add: MN significant_def)
qed

subsection \<open>A zero maximum\<close>

lemma square_over_zero:
  "ddiv (dmul sv sv) (Fin 0) = NaN \<or> ddiv (dmul sv sv) (Fin 0) = PInf"
  by (cases sv) (simp_all add: signed_inf_def)

lemma over_zero: "ddiv sv (Fin 0) \<in> {NaN, PInf, NInf}"
  by (cases sv) (simp_all add: signed_inf_def)

lemma zero_not_ge: "c = NaN \<or> c = PInf \<Longrightarrow> dle (Fin 0) v \<Longrightarrow> dle v (Fin 0) \<Longrightarrow> \<not> dge v c"
  by (cases v) (auto simp: dle_def dge_def)

lemma rev_entries_none:
  "(\<And>p. p \<in> set ps \<Longrightarrow> \<not> sig p) \<Longrightarrow> rev_entries sig off ps = replicate (length ps) (-1)"
  by (induction ps arbitrary: off) simp_all

lemma nothing_significant:
  assumes len: "length vals = n * n"
    and b: "\<forall>v\<in>set vals. dle (Fin 0) v \<and> dle v (Fin 0)"
    and c: "c = NaN \<or> c = PInf" and MN: "M < n" "N < n"
  shows "\<not> significant vals n c (M, N)"
proof -
  have "M * n + N < length vals" using MN len by (simp add: idx_less)
  then have "vals ! (M * n + N) \<in> set vals" by simp
  then have "dle (Fin 0) (vals ! (M * n + N))" "dle (vals ! (M * n + N)) (Fin 0)" using b by simp_all
  from zero_not_ge [OF c this] show ?thesis by (simp add: significant_def)
qed

lemma degenerate_lists:
  assumes len: "length vals = n * n"
    and b: "\<forall>v\<in>set vals. dle (Fin 0) v \<and> dle v (Fin 0)"
    and c: "c = NaN \<or> c = PInf"
  shows "filter (significant vals n c) (tri n) = []"
    and "set (rev_entries (significant vals n c) 0 (tri n)) \<subseteq> {-1}"
    and "set (map (partners vals n c) [0..<n]) \<subseteq> {[]}"
proof -
  have none: "\<not> significant vals n c p" if "p \<in> set (tri n)" for p
  proof -
    obtain M N where p: "p = (M, N)" by (cases p)
    then have "M < n" "N < n" using that by (simp_all add: set_tri)
    from nothing_significant [OF len b c this] show ?thesis by (simp add: p)
  qed
  then show "filter (significant vals n c) (tri n) = []" by (simp add: filter_empty_conv)
  show "set (rev_entries (significant vals n c) 0 (tri n)) \<subseteq> {-1}"
    using rev_entries_none [of "tri n" "significant vals n c" 0] none by auto
  have "partners vals n c M = []" if "M < n" for M
    using nothing_significant [OF len b c that]
    by (simp add: partners_def filter_empty_conv)
  then show "set (map (partners vals n c) [0..<n]) \<subseteq> {[]}" by auto
qed

subsection \<open>A constructed object after further calls of set_sieve\<close>

lemma set_sieve_ERISieve:
  "set_sieve sv' (ERISieve primary sv csam eri) = ERISieve primary sv' csam eri"
proof -
  have "built primary sv csam eri = (built primary sv' csam eri)\<lparr>sieve_cutoff := sv\<rparr>"
    by (simp add: built_def integrals_def csam_integrals_def Let_def split_def)
  then have "set_sieve sv' (built primary sv csam eri) = set_sieve sv' (built primary sv' csam eri)"
    by (simp add: set_sieve_closed)
  then show ?thesis by (simp add: ERISieve_built set_sieve_absorb)
qed

lemma ERISieve_sized: "wf_basis primary \<Longrightarrow> sized (ERISieve primary sv csam eri)"
  using schwarz_run_facts(1,2) [of primary eri] by (simp add: sized_def ERISieve_fields)

lemma ERISieve_bounded: "wf_basis primary \<Longrightarrow> bounded (ERISieve primary sv csam eri)"
  using schwarz_run_facts(3,4,5) [of primary eri] by (simp add: bounded_def ERISieve_fields)

section \<open>The example evaluated\<close>

lemma example_wf: "wf_basis example_basis"
  by (simp add: wf_basis_def example_basis_def)

lemma example_dims: "length (shells example_basis) = 2" "basis_nbf example_basis = 3"
  by (simp_all add: example_basis_def)

lemma example_schwarz:
  "schwarz_run example_basis example_eri =
     (Fin 9, [Fin 4, Fin 1, Fin 1, Fin 9],
      [Fin 4, Fin 1, Fin 1, Fin 1, Fin 9, Fin 9, Fin 1, Fin 9, Fin 9])"
  by (simp add: schwarz_run_def integrals_loops_def integrals_body_def schwarz_max_def
        fill_block_def example_basis_def example_eri_def dmax_def eval_nat_numeral Let_def)

lemma example_csam:
  "csam_run example_basis example_eri 2 3 =
     ([Fin 2, Fin 3, Fin 2], [Fin 1, Fin (1 / 2), Fin (1 / 2), Fin 1], example_trace)"
  by (simp add: csam_run_def csam_loops_def csam_body_def csam_diagonal_def csam_max_def
        example_basis_def example_eri_def example_trace_def dmax_def eval_nat_numeral Let_def)

lemma dark_schwarz:
  "schwarz_run example_basis zero_eri =
     (Fin 0, [Fin 0, Fin 0, Fin 0, Fin 0],
      [Fin 0, Fin 0, Fin 0, Fin 0, Fin 0, Fin 0, Fin 0, Fin 0, Fin 0])"
  by (simp add: schwarz_run_def integrals_loops_def integrals_body_def schwarz_max_def
        fill_block_def example_basis_def zero_eri_def dmax_def eval_nat_numeral Let_def)

lemma example_fields:
  "nshell (example sv) = 2"
  "nbf (example sv) = 3"
  "max_value (example sv) = Fin 9"
  "shell_pair_values (example sv) = [Fin 4, Fin 1, Fin 1, Fin 9]"
  "function_pair_values (example sv) =
     [Fin 4, Fin 1, Fin 1, Fin 1, Fin 9, Fin 9, Fin 1, Fin 9, Fin 9]"
  "shell_pair_exchange_values (example sv) = [Fin 1, Fin (1 / 2), Fin (1 / 2), Fin 1]"
  "sieve2 (example sv) = dmul sv sv"
  "sieve_cutoff (example sv) = sv"
  by (simp_all add: example_def ERISieve_fields example_schwarz example_csam example_dims)

lemma dark_fields:
  "nshell (dark sv) = 2"
  "nbf (dark sv) = 3"
  "max_value (dark sv) = Fin 0"
  "shell_pair_values (dark sv) = [Fin 0, Fin 0, Fin 0, Fin 0]"
  "function_pair_values (dark sv) =
     [Fin 0, Fin 0, Fin 0, Fin 0, Fin 0, Fin 0, Fin 0, Fin 0, Fin 0]"
  by (simp_all add: dark_def ERISieve_fields dark_schwarz example_dims)

lemma tri_2: "tri 2 = [(0, 0), (1, 0), (1, 1)]"
  by (simp add: tri_def eval_nat_numeral)

lemma tri_3: "tri 3 = [(0, 0), (1, 0), (1, 1), (2, 0), (2, 1), (2, 2)]"
  by (simp add: tri_def eval_nat_numeral)

lemma upt_2: "[0..<2] = [0, 1]"
  by (simp add: eval_nat_numeral)

lemma upt_3: "[0..<3] = [0, 1, 2]"
  by (simp add: eval_nat_numeral)

lemma example_set_sieve: "set_sieve sv' (example sv) = example sv'"
  by (simp add: example_def set_sieve_ERISieve)

lemma example_lists:
  "shell_pairs (example sv) =
     filter (significant [Fin 4, Fin 1, Fin 1, Fin 9] 2 (ddiv (dmul sv sv) (Fin 9))) (tri 2)"
  "function_pairs (example sv) =
     filter (significant [Fin 4, Fin 1, Fin 1, Fin 1, Fin 9, Fin 9, Fin 1, Fin 9, Fin 9] 3
               (ddiv (dmul sv sv) (Fin 9))) (tri 3)"
  "shell_pairs_reverse (example sv) =
     rev_entries (significant [Fin 4, Fin 1, Fin 1, Fin 9] 2 (ddiv (dmul sv sv) (Fin 9))) 0 (tri 2)"
  "function_pairs_reverse (example sv) =
     rev_entries (significant [Fin 4, Fin 1, Fin 1, Fin 1, Fin 9, Fin 9, Fin 1, Fin 9, Fin 9] 3
                    (ddiv (dmul sv sv) (Fin 9))) 0 (tri 3)"
  "shell_to_shell (example sv) =
     map (partners [Fin 4, Fin 1, Fin 1, Fin 9] 2 (ddiv (dmul sv sv) (Fin 9))) [0..<2]"
  "function_to_function (example sv) =
     map (partners [Fin 4, Fin 1, Fin 1, Fin 1, Fin 9, Fin 9, Fin 1, Fin 9, Fin 9] 3
            (ddiv (dmul sv sv) (Fin 9))) [0..<3]"
  by (simp_all add: example_def ERISieve_built set_sieve_lists built_fields example_schwarz
        example_dims)

lemma example_at_6:
  "shell_pairs (example (Fin 6)) = [(0, 0), (1, 1)]"
  "function_pairs (example (Fin 6)) = [(0, 0), (1, 1), (2, 1), (2, 2)]"
  "shell_pairs_reverse (example (Fin 6)) = [0, -1, 1]"
  "function_pairs_reverse (example (Fin 6)) = [0, -1, 1, -1, 2, 3]"
  "shell_to_shell (example (Fin 6)) = [[0], [1]]"
  "function_to_function (example (Fin 6)) = [[0], [1, 2], [1, 2]]"
  by (simp_all add: example_lists tri_2 tri_3 upt_2 upt_3 partners_def significant_def dge_def)

lemma example_at_2:
  "shell_pairs (example (Fin 2)) = [(0, 0), (1, 0), (1, 1)]"
  "function_pairs (example (Fin 2)) = [(0, 0), (1, 0), (1, 1), (2, 0), (2, 1), (2, 2)]"
  by (simp_all add: example_lists tri_2 tri_3 significant_def dge_def)

lemma example_at_minus_6:
  "shell_pairs (example (Fin (-6))) = [(0, 0), (1, 1)]"
  by (simp_all add: example_lists tri_2 tri_3 significant_def dge_def)

lemma example_sized: "sized (example sv)"
  by (simp add: example_def ERISieve_sized example_wf)

lemma example_bounded: "bounded (example sv)"
  by (simp add: example_def ERISieve_bounded example_wf)

lemma dark_sized: "sized (dark sv)"
  by (simp add: dark_def ERISieve_sized example_wf)

lemma dark_bounded: "bounded (dark sv)"
  by (simp add: dark_def ERISieve_bounded example_wf)

lemma dark_set_sieve: "set_sieve sv' (dark sv) = dark sv'"
  by (simp add: dark_def set_sieve_ERISieve)

lemma example_shell_of:
  "shell_of example_basis 0 = 0" "shell_of example_basis 1 = 1" "shell_of example_basis 2 = 1"
  by (simp_all add: shell_of_def example_basis_def)

lemma example_sqrt: "function_sqrt (example sv) = [Fin 2, Fin 3, Fin 2]"
  by (simp add: example_def ERISieve_function_sqrt example_dims example_csam)

lemma example_diagonal_sqrt:
  "diagonal_sqrt example_basis example_eri 0 = Fin 2"
  "diagonal_sqrt example_basis example_eri 1 = Fin 3"
  "diagonal_sqrt example_basis example_eri 2 = Fin 2"
  by (simp_all add: diagonal_sqrt_def Let_def shell_of_def example_basis_def example_eri_def)

lemma example_exchange_bound:
  "exchange_bound example_basis example_eri 0 0 = Fin 1"
  "exchange_bound example_basis example_eri 1 0 = Fin (1 / 2)"
  "exchange_bound example_basis example_eri 1 1 = Fin 1"
  using example_diagonal_sqrt
  by (simp_all add: exchange_bound_def Let_def example_basis_def example_eri_def dmax_def
        eval_nat_numeral)

section \<open>The claims\<close>

text \<open>
  Claim C1. \<^verbatim>\<open>set_sieve\<close> keeps the numbers of shells and functions, and after it, for
  every canonical shell pair \<open>(M, N)\<close> with \<open>N \<le> M < nshell\<close>, the entry of the packed
  reverse map at \<open>M (M + 1) / 2 + N\<close> is \<open>-1\<close> exactly when \<open>(M, N)\<close> is not in the
  shell-pair list, and otherwise it is the position of \<open>(M, N)\<close> in that list; the
  same holds for the function pairs. The entry is not \<open>-1\<close> exactly when the bound of
  the pair meets the cutoff \<open>\<tau>\<^sup>2 / max\<close>. The pairs are those of the sieve on which
  \<^verbatim>\<open>set_sieve\<close> is called.
\<close>

theorem reverse_map_correspondence:
  assumes "sized s" and "s' = set_sieve sv s"
  shows "nshell s' = nshell s \<and> nbf s' = nbf s \<and>
         reverse_corresponds (nshell s) (shell_pairs_reverse s') (shell_pairs s') \<and>
         reverse_corresponds (nbf s) (function_pairs_reverse s') (function_pairs s') \<and>
         reverse_decided (nshell s) (shell_pair_values s)
           (ddiv (dmul sv sv) (max_value s)) (shell_pairs_reverse s') \<and>
         reverse_decided (nbf s) (function_pair_values s)
           (ddiv (dmul sv sv) (max_value s)) (function_pairs_reverse s')"
  unfolding assms(2) set_sieve_fields set_sieve_lists
  by (simp add: reverse_corresponds_entries reverse_decided_entries)

theorem reverse_map_correspondence_witness:
  "sized (example (Fin 2)) \<and> nshell (example (Fin 2)) = 2 \<and> nbf (example (Fin 2)) = 3 \<and>
   shell_pairs (set_sieve (Fin 6) (example (Fin 2))) = [(0, 0), (1, 1)] \<and>
   shell_pairs_reverse (set_sieve (Fin 6) (example (Fin 2))) = [0, -1, 1] \<and>
   function_pairs (set_sieve (Fin 6) (example (Fin 2))) = [(0, 0), (1, 1), (2, 1), (2, 2)] \<and>
   function_pairs_reverse (set_sieve (Fin 6) (example (Fin 2))) = [0, -1, 1, -1, 2, 3] \<and>
   reverse_corresponds (nshell (example (Fin 2)))
     (shell_pairs_reverse (set_sieve (Fin 6) (example (Fin 2))))
     (shell_pairs (set_sieve (Fin 6) (example (Fin 2)))) \<and>
   reverse_corresponds (nbf (example (Fin 2)))
     (function_pairs_reverse (set_sieve (Fin 6) (example (Fin 2))))
     (function_pairs (set_sieve (Fin 6) (example (Fin 2)))) \<and>
   reverse_decided (nshell (example (Fin 2))) (shell_pair_values (example (Fin 2)))
     (ddiv (dmul (Fin 6) (Fin 6)) (max_value (example (Fin 2))))
     (shell_pairs_reverse (set_sieve (Fin 6) (example (Fin 2))))"
proof -
  have h: "sized (example (Fin 2))" by (rule example_sized)
  have e: "set_sieve (Fin 6) (example (Fin 2)) = example (Fin 6)" by (rule example_set_sieve)
  from reverse_map_correspondence [OF h refl, of "Fin 6"] h
  show ?thesis unfolding e by (simp add: example_at_6 example_fields)
qed

text \<open>
  Claim C2. After \<^verbatim>\<open>set_sieve\<close>, there is one adjacency list for each shell of the
  sieve, and the list of shell \<open>M\<close> holds exactly the \<open>N < nshell\<close> (on both sides of
  \<open>M\<close>) whose bound \<open>D[M][N]\<close> is at least \<open>\<tau>\<^sup>2 / max\<close>, in ascending order; the same
  holds for the functions with the function matrix. The shells, the matrices and
  \<^verbatim>\<open>max_\<close> are those of the sieve on which \<^verbatim>\<open>set_sieve\<close> is called, and
  \<^verbatim>\<open>set_sieve\<close> keeps them.
\<close>

theorem adjacency_lists_exact:
  assumes "sized s" and "s' = set_sieve sv s"
  shows "nshell s' = nshell s \<and> nbf s' = nbf s \<and>
         shell_pair_values s' = shell_pair_values s \<and>
         function_pair_values s' = function_pair_values s \<and> max_value s' = max_value s \<and>
         sieve2_over_max s' = ddiv (dmul sv sv) (max_value s) \<and>
         adjacency_exact (nshell s) (shell_pair_values s)
           (ddiv (dmul sv sv) (max_value s)) (shell_to_shell s') \<and>
         adjacency_exact (nbf s) (function_pair_values s)
           (ddiv (dmul sv sv) (max_value s)) (function_to_function s')"
  unfolding assms(2) set_sieve_fields set_sieve_lists
  by (simp add: adjacency_exact_partners)

theorem adjacency_lists_exact_witness:
  "sized (example (Fin 2)) \<and> nshell (example (Fin 2)) = 2 \<and> nbf (example (Fin 2)) = 3 \<and>
   shell_pair_values (example (Fin 2)) = [Fin 4, Fin 1, Fin 1, Fin 9] \<and>
   ddiv (dmul (Fin 6) (Fin 6)) (max_value (example (Fin 2))) = Fin 4 \<and>
   shell_to_shell (set_sieve (Fin 6) (example (Fin 2))) = [[0], [1]] \<and>
   function_to_function (set_sieve (Fin 6) (example (Fin 2))) = [[0], [1, 2], [1, 2]] \<and>
   adjacency_exact (nshell (example (Fin 2))) (shell_pair_values (example (Fin 2)))
     (ddiv (dmul (Fin 6) (Fin 6)) (max_value (example (Fin 2))))
     (shell_to_shell (set_sieve (Fin 6) (example (Fin 2)))) \<and>
   adjacency_exact (nbf (example (Fin 2))) (function_pair_values (example (Fin 2)))
     (ddiv (dmul (Fin 6) (Fin 6)) (max_value (example (Fin 2))))
     (function_to_function (set_sieve (Fin 6) (example (Fin 2))))"
proof -
  have h: "sized (example (Fin 2))" by (rule example_sized)
  have e: "set_sieve (Fin 6) (example (Fin 2)) = example (Fin 6)" by (rule example_set_sieve)
  from adjacency_lists_exact [OF h refl, of "Fin 6"] h
  show ?thesis unfolding e by (simp add: example_at_6 example_fields)
qed

text \<open>
  Claim C3. After \<^verbatim>\<open>set_sieve\<close>, the shell-pair list holds exactly the pairs \<open>(M, N)\<close>
  with \<open>N \<le> M < nshell\<close> and \<open>D[M][N] \<ge> \<tau>\<^sup>2 / max\<close>, in strictly ascending
  lexicographic order (by \<open>M\<close>, then by \<open>N\<close>); the same holds for the function pairs.
  The shells, the matrices and \<^verbatim>\<open>max_\<close> are those of the sieve on which \<^verbatim>\<open>set_sieve\<close>
  is called, and \<^verbatim>\<open>set_sieve\<close> keeps them.
\<close>

theorem pair_lists_exact_and_ordered:
  assumes "sized s" and "s' = set_sieve sv s"
  shows "nshell s' = nshell s \<and> nbf s' = nbf s \<and>
         shell_pair_values s' = shell_pair_values s \<and>
         function_pair_values s' = function_pair_values s \<and> max_value s' = max_value s \<and>
         sieve2_over_max s' = ddiv (dmul sv sv) (max_value s) \<and>
         pairs_exact (nshell s) (shell_pair_values s)
           (ddiv (dmul sv sv) (max_value s)) (shell_pairs s') \<and>
         pairs_exact (nbf s) (function_pair_values s)
           (ddiv (dmul sv sv) (max_value s)) (function_pairs s')"
  unfolding assms(2) set_sieve_fields set_sieve_lists
  by (simp add: pairs_exact_filter)

theorem pair_lists_exact_and_ordered_witness:
  "sized (example (Fin 2)) \<and> nshell (example (Fin 2)) = 2 \<and> nbf (example (Fin 2)) = 3 \<and>
   shell_pair_values (example (Fin 2)) = [Fin 4, Fin 1, Fin 1, Fin 9] \<and>
   ddiv (dmul (Fin 6) (Fin 6)) (max_value (example (Fin 2))) = Fin 4 \<and>
   shell_pairs (set_sieve (Fin 6) (example (Fin 2))) = [(0, 0), (1, 1)] \<and>
   function_pairs (set_sieve (Fin 6) (example (Fin 2))) = [(0, 0), (1, 1), (2, 1), (2, 2)] \<and>
   pairs_exact (nshell (example (Fin 2))) (shell_pair_values (example (Fin 2)))
     (ddiv (dmul (Fin 6) (Fin 6)) (max_value (example (Fin 2))))
     (shell_pairs (set_sieve (Fin 6) (example (Fin 2)))) \<and>
   pairs_exact (nbf (example (Fin 2))) (function_pair_values (example (Fin 2)))
     (ddiv (dmul (Fin 6) (Fin 6)) (max_value (example (Fin 2))))
     (function_pairs (set_sieve (Fin 6) (example (Fin 2))))"
proof -
  have h: "sized (example (Fin 2))" by (rule example_sized)
  have e: "set_sieve (Fin 6) (example (Fin 2)) = example (Fin 6)" by (rule example_set_sieve)
  from pair_lists_exact_and_ordered [OF h refl, of "Fin 6"] h
  show ?thesis unfolding e by (simp add: example_at_6 example_fields)
qed

text \<open>
  Claim C4, as stated, fails: for thresholds \<open>\<tau>\<^sub>1 < \<tau>\<^sub>2\<close> the significant pairs at
  \<open>\<tau>\<^sub>2\<close> need not be among those at \<open>\<tau>\<^sub>1\<close>. \<^verbatim>\<open>set_sieve\<close> squares the threshold, so
  with \<open>\<tau>\<^sub>1 = -6\<close> and \<open>\<tau>\<^sub>2 = 2\<close> on the two-shell example the cutoffs are
  \<open>36 / 9\<close> and \<open>4 / 9\<close>: the pair \<open>(1, 0)\<close> with bound 1 is kept at \<open>\<tau>\<^sub>2\<close> and
  dropped at \<open>\<tau>\<^sub>1\<close>.
\<close>

theorem monotonic_shrink_fails_for_negative_threshold:
  "dlt (Fin (-6)) (Fin 2) \<and>
   \<not> set (shell_pairs (set_sieve (Fin 2) (example (Fin 0))))
       \<subseteq> set (shell_pairs (set_sieve (Fin (-6)) (example (Fin 0))))"
  by (simp add: example_set_sieve example_at_2 example_at_minus_6)

text \<open>
  Claim C4, amended. For thresholds \<open>0 \<le> \<tau>\<^sub>1 < \<tau>\<^sub>2\<close> applied by \<^verbatim>\<open>set_sieve\<close> to
  the same bound matrices (of the sizes and within the bounds \<open>0 \<le> D[P][Q] \<le> max\<close>
  that construction gives), the significant shell pairs at \<open>\<tau>\<^sub>2\<close> are among those at
  \<open>\<tau>\<^sub>1\<close>, and likewise the significant function pairs.
\<close>

theorem monotonic_shrink:
  assumes "sized s" and "bounded s" and "dle (Fin 0) t1" and "dlt t1 t2"
  shows "set (shell_pairs (set_sieve t2 s)) \<subseteq> set (shell_pairs (set_sieve t1 s)) \<and>
         set (function_pairs (set_sieve t2 s)) \<subseteq> set (function_pairs (set_sieve t1 s))"
  using assms(1,2) unfolding set_sieve_lists sized_def bounded_def
  by (intro conjI pairs_shrink assms(3,4)) simp_all

theorem monotonic_shrink_witness:
  "sized (example (Fin 0)) \<and> bounded (example (Fin 0)) \<and>
   dle (Fin 0) (Fin 2) \<and> dlt (Fin 2) (Fin 6) \<and>
   set [(0, 0), (1, 1)] \<subseteq> set [(0::nat, 0::nat), (1, 0), (1, 1)] \<and>
   set (function_pairs (example (Fin 6))) \<subseteq> set (function_pairs (example (Fin 2)))"
proof -
  have h: "sized (example (Fin 0))" "bounded (example (Fin 0))"
      "dle (Fin 0) (Fin 2)" "dlt (Fin 2) (Fin 6)"
    by (simp_all add: example_sized example_bounded dle_def dge_def)
  from monotonic_shrink [OF h] h
  show ?thesis by (simp add: example_set_sieve example_at_6 example_at_2)
qed

text \<open>
  Claim C5. For shell indices \<open>M, N, R, S\<close> in range of a sieve built with CSAM,
  \<^verbatim>\<open>shell_significant_csam(M, N, R, S)\<close> is true exactly when
  \<open>|D[N][M] \<cdot> D[S][R] \<cdot> max (X[M][R] \<cdot> X[N][S], X[M][S] \<cdot> X[N][R])| \<ge> \<tau>\<^sup>2\<close>.
  The code reads the exchange matrix at the transposed positions; the two agree
  because the matrix is symmetric.
\<close>

theorem shell_significant_csam_formula:
  assumes "wf_basis primary" and "s = ERISieve primary sv True eri"
    and "M < nshell s" and "N < nshell s" and "R < nshell s" and "S < nshell s"
  shows "shell_significant_csam s M N R S = csam_significant_spec s M N R S"
proof -
  define n where "n = length (shells primary)"
  define X where "X = fst (snd (csam_run primary eri n (basis_nbf primary)))"
  have lt: "M < n" "N < n" "R < n" "S < n"
    using assms(3-6) by (simp_all add: assms(2) ERISieve_fields n_def)
  note g = csam_run_facts [where primary=primary and eri=eri and n=n and m="basis_nbf primary", folded X_def]
  have sym: "X ! (R * n + M) = X ! (M * n + R)" "X ! (S * n + N) = X ! (N * n + S)"
       "X ! (S * n + M) = X ! (M * n + S)" "X ! (R * n + N) = X ! (N * n + R)"
    using g(3) lt by simp_all
  show ?thesis
    unfolding shell_significant_csam_def csam_significant_spec_def Let_def
    by (simp add: assms(2) ERISieve_fields sym flip: n_def X_def)
qed

theorem shell_significant_csam_formula_witness:
  "wf_basis example_basis \<and> nshell (example (Fin 2)) = 2 \<and>
   shell_significant_csam (example (Fin 2)) 0 0 1 1 \<and>
   csam_significant_spec (example (Fin 2)) 0 0 1 1 \<and>
   \<not> shell_significant_csam (example (Fin 6)) 0 0 1 1 \<and>
   \<not> csam_significant_spec (example (Fin 6)) 0 0 1 1"
proof -
  have a: "shell_significant_csam (example (Fin 2)) 0 0 1 1 =
           csam_significant_spec (example (Fin 2)) 0 0 1 1"
    by (rule shell_significant_csam_formula [OF example_wf example_def])
       (simp_all add: example_fields)
  have b: "shell_significant_csam (example (Fin 6)) 0 0 1 1 =
           csam_significant_spec (example (Fin 6)) 0 0 1 1"
    by (rule shell_significant_csam_formula [OF example_wf example_def])
       (simp_all add: example_fields)
  have c: "csam_significant_spec (example (Fin 2)) 0 0 1 1"
          "\<not> csam_significant_spec (example (Fin 6)) 0 0 1 1"
    by (simp_all add: csam_significant_spec_def example_fields dmax_def dge_def)
  show ?thesis using a b c by (simp add: example_wf example_fields)
qed

text \<open>
  Claim C6. After construction on a well-formed basis, for all shell indices \<open>P, Q\<close>
  in range the shell-pair bound matrix is symmetric, \<open>D[P][Q] == D[Q][P]\<close>; with CSAM
  enabled the exchange matrix is symmetric, \<open>X[P][Q] == X[Q][P]\<close>; and
  \<open>0 \<le> D[P][Q] \<le> max\<close>. The comparisons are those of \<^verbatim>\<open>double\<close>, so no entry is NaN.
\<close>

theorem bounds_symmetric_after_construction:
  assumes "wf_basis primary" and "s = ERISieve primary sv csam eri"
    and "P < nshell s" and "Q < nshell s"
  shows "deq (shell_pair_value s P Q) (shell_pair_value s Q P) \<and>
         (do_csam s \<longrightarrow> deq (shell_pair_exchange_values s ! (P * nshell s + Q))
                             (shell_pair_exchange_values s ! (Q * nshell s + P))) \<and>
         dle (Fin 0) (shell_pair_value s P Q) \<and>
         dle (shell_pair_value s P Q) (max_value s)"
proof -
  define n where "n = length (shells primary)"
  define D where "D = fst (snd (schwarz_run primary eri))"
  have PQ: "P < n" "Q < n" using assms(3,4) by (simp_all add: assms(2) ERISieve_fields n_def)
  note f = schwarz_run_facts [OF assms(1), of eri, folded n_def D_def]
  have sym: "D ! (P * n + Q) = D ! (Q * n + P)" using f(6) PQ by simp
  have "P * n + Q < length D" using PQ f(1) by (simp add: idx_less)
  then have mem: "D ! (P * n + Q) \<in> set D" by simp
  then have b: "dle (Fin 0) (D ! (P * n + Q))" "dle (D ! (P * n + Q)) (fst (schwarz_run primary eri))"
    using f(4) by simp_all
  have d: "deq (D ! (P * n + Q)) (D ! (Q * n + P))"
    using sym dle_not_NaN [OF b(1)] by (simp add: deq_def)
  have x: "deq (shell_pair_exchange_values s ! (P * nshell s + Q))
               (shell_pair_exchange_values s ! (Q * nshell s + P))" if "do_csam s"
  proof -
    have csam: "csam = True" using that by (simp add: assms(2) ERISieve_fields)
    define X where "X = fst (snd (csam_run primary eri n (basis_nbf primary)))"
    note g = csam_run_facts [where primary=primary and eri=eri and n=n and m="basis_nbf primary", folded X_def]
    have "P * n + Q < length X" "Q * n + P < length X" using PQ g(1) by (simp_all add: idx_less)
    then have "X ! (P * n + Q) \<noteq> NaN" "X ! (Q * n + P) \<noteq> NaN" using g(2) by simp_all
    moreover have "X ! (P * n + Q) = X ! (Q * n + P)" using g(3) PQ by simp
    ultimately show ?thesis
      by (simp add: assms(2) csam ERISieve_fields deq_def X_def n_def)
  qed
  show ?thesis using d b x
    by (simp add: assms(2) ERISieve_fields shell_pair_value_def D_def n_def)
qed

theorem bounds_symmetric_after_construction_witness:
  "wf_basis example_basis \<and> nshell (example (Fin 6)) = 2 \<and> do_csam (example (Fin 6)) \<and>
   shell_pair_value (example (Fin 6)) 1 0 = Fin 1 \<and>
   deq (shell_pair_value (example (Fin 6)) 1 0) (shell_pair_value (example (Fin 6)) 0 1) \<and>
   deq (shell_pair_exchange_values (example (Fin 6)) ! 2)
       (shell_pair_exchange_values (example (Fin 6)) ! 1) \<and>
   dle (Fin 0) (Fin 1) \<and> dle (Fin 1) (Fin 9)"
proof -
  have c: "do_csam (example (Fin 6))" by (simp add: example_def ERISieve_fields)
  have "deq (shell_pair_value (example (Fin 6)) 1 0) (shell_pair_value (example (Fin 6)) 0 1) \<and>
        (do_csam (example (Fin 6)) \<longrightarrow>
           deq (shell_pair_exchange_values (example (Fin 6)) ! (1 * nshell (example (Fin 6)) + 0))
               (shell_pair_exchange_values (example (Fin 6)) ! (0 * nshell (example (Fin 6)) + 1))) \<and>
        dle (Fin 0) (shell_pair_value (example (Fin 6)) 1 0) \<and>
        dle (shell_pair_value (example (Fin 6)) 1 0) (max_value (example (Fin 6)))"
    by (rule bounds_symmetric_after_construction [OF example_wf example_def])
       (simp_all add: example_fields)
  then show ?thesis using c
    by (simp add: example_wf example_fields shell_pair_value_def)
qed

text \<open>
  Claim C7. \<^verbatim>\<open>set_sieve\<close> leaves the two bound matrices, the exchange matrix and
  \<^verbatim>\<open>max_\<close> as they were, and calling it a second time with the same threshold changes
  nothing: the whole object is the same as after the first call.
\<close>

theorem set_sieve_frame_and_idempotent:
  assumes "sized s" and "s' = set_sieve sv s"
  shows "shell_pair_values s' = shell_pair_values s \<and>
         function_pair_values s' = function_pair_values s \<and>
         shell_pair_exchange_values s' = shell_pair_exchange_values s \<and>
         max_value s' = max_value s \<and>
         set_sieve sv s' = s'"
  unfolding assms(2) by (simp add: set_sieve_fields set_sieve_absorb)

theorem set_sieve_frame_and_idempotent_witness:
  "sized (example (Fin 2)) \<and>
   shell_pair_values (set_sieve (Fin 6) (example (Fin 2))) = [Fin 4, Fin 1, Fin 1, Fin 9] \<and>
   max_value (set_sieve (Fin 6) (example (Fin 2))) = Fin 9 \<and>
   set_sieve (Fin 6) (set_sieve (Fin 6) (example (Fin 2))) = set_sieve (Fin 6) (example (Fin 2))"
proof -
  have h: "sized (example (Fin 2))" by (rule example_sized)
  from set_sieve_frame_and_idempotent [OF h refl, of "Fin 6"] h
  show ?thesis by (simp add: example_fields)
qed

text \<open>
  Claim C8, as stated, fails. \<^verbatim>\<open>set_sieve\<close> has no check of \<^verbatim>\<open>max_\<close>, no exception and
  no assertion: it always runs to its end, which is why its model is a function
  from objects to objects. On a basis whose bounds are all zero, \<^verbatim>\<open>max_\<close> is zero,
  the quotients are formed by the division of \<^verbatim>\<open>double\<close>, and the object comes back
  holding NaN (threshold 0) or an infinity (threshold 2) as its cutoffs.
\<close>

theorem zero_max_stores_nan_and_inf:
  "max_value (dark (Fin 0)) = Fin 0 \<and>
   sieve_over_max (set_sieve (Fin 0) (dark (Fin 0))) = NaN \<and>
   sieve2_over_max (set_sieve (Fin 0) (dark (Fin 0))) = NaN \<and>
   sieve_over_max (set_sieve (Fin 2) (dark (Fin 0))) = PInf \<and>
   sieve2_over_max (set_sieve (Fin 2) (dark (Fin 0))) = PInf \<and>
   shell_pairs (set_sieve (Fin 2) (dark (Fin 0))) = []"
  by (simp add: set_sieve_fields set_sieve_lists dark_fields signed_inf_def tri_2
        significant_def dge_def)

text \<open>
  Claim C8, amended. When \<^verbatim>\<open>max_\<close> is zero, \<^verbatim>\<open>set_sieve\<close> does not fail: it stores
  the quotients of the division of \<^verbatim>\<open>double\<close> by zero, so \<open>\<tau> / max\<close> is NaN or an
  infinity and \<open>\<tau>\<^sup>2 / max\<close> is NaN or \<open>+\<infinity>\<close>, and tests every bound against that
  cutoff. With the bounds between 0 and \<^verbatim>\<open>max_\<close>, as construction leaves them, no
  pair passes: both significance lists are empty, every reverse-map entry is \<open>-1\<close>
  and every adjacency list is empty.
\<close>

theorem zero_max_degenerate_cutoff:
  assumes "sized s" and "bounded s" and "max_value s = Fin 0" and "s' = set_sieve sv s"
  shows "sieve_over_max s' \<in> {NaN, PInf, NInf} \<and> sieve2_over_max s' \<in> {NaN, PInf} \<and>
         shell_pairs s' = [] \<and> function_pairs s' = [] \<and>
         set (shell_pairs_reverse s') \<subseteq> {-1} \<and> set (function_pairs_reverse s') \<subseteq> {-1} \<and>
         set (shell_to_shell s') \<subseteq> {[]} \<and> set (function_to_function s') \<subseteq> {[]}"
proof -
  have c: "ddiv (dmul sv sv) (max_value s) = NaN \<or> ddiv (dmul sv sv) (max_value s) = PInf"
    unfolding assms(3) by (rule square_over_zero)
  have lenD: "length (shell_pair_values s) = nshell s * nshell s"
    and lenF: "length (function_pair_values s) = nbf s * nbf s"
    using assms(1) by (simp_all add: sized_def)
  have bD: "\<forall>v\<in>set (shell_pair_values s). dle (Fin 0) v \<and> dle v (Fin 0)"
    and bF: "\<forall>v\<in>set (function_pair_values s). dle (Fin 0) v \<and> dle v (Fin 0)"
    using assms(2) by (simp_all add: bounded_def assms(3))
  note dD = degenerate_lists [OF lenD bD c]
  note dF = degenerate_lists [OF lenF bF c]
  show ?thesis
    unfolding assms(4) set_sieve_lists set_sieve_fields
    using c over_zero [of sv] dD dF by (simp add: assms(3))
qed

theorem zero_max_degenerate_cutoff_witness:
  "sized (dark (Fin 0)) \<and> bounded (dark (Fin 0)) \<and> max_value (dark (Fin 0)) = Fin 0 \<and>
   sieve2_over_max (dark (Fin 3)) = PInf \<and>
   shell_pairs (dark (Fin 3)) = [] \<and> function_pairs (dark (Fin 3)) = [] \<and>
   set (shell_pairs_reverse (dark (Fin 3))) \<subseteq> {-1} \<and>
   set (shell_to_shell (dark (Fin 3))) \<subseteq> {[]}"
proof -
  have h: "sized (dark (Fin 0))" "bounded (dark (Fin 0))" "max_value (dark (Fin 0)) = Fin 0"
    by (simp_all add: dark_sized dark_bounded dark_fields)
  have "sieve2_over_max (dark (Fin 3)) = PInf"
    using set_sieve_fields(12) [of "Fin 3" "dark (Fin 0)"]
    by (simp add: dark_set_sieve dark_fields signed_inf_def)
  with zero_max_degenerate_cutoff [OF h refl, of "Fin 3"] h
  show ?thesis by (simp add: dark_set_sieve)
qed

text \<open>
  Claim C9. In \<^verbatim>\<open>csam_integrals\<close> on a well-formed basis, the diagonal square root
  of every function is written into \<^verbatim>\<open>function_sqrt_\<close> exactly once, in the
  iteration in which its shell is the outer shell \<open>P\<close> and \<open>Q = P\<close>, and the value
  written is the square root of the diagonal element; every read of an entry of
  \<^verbatim>\<open>function_sqrt_\<close> as a divisor, in the iteration of any pair \<open>(P, Q)\<close>, comes after
  the write of that entry and finds the diagonal square root there, not the initial
  zero; at the end the array holds the diagonal square root of every function, and
  the exchange matrix holds, in both triangles, the maximum computed with these
  divisors for every pair \<open>Q \<le> P\<close>.
\<close>

theorem function_sqrt_written_once_before_read:
  assumes "wf_basis primary" and "s = ERISieve primary sv True eri"
    and "tr = csam_trace primary eri"
  shows "length (function_sqrt s) = basis_nbf primary \<and>
         (\<forall>f\<in>{0..<basis_nbf primary}.
            writes_of f tr = 1 \<and> function_sqrt s ! f = diagonal_sqrt primary eri f) \<and>
         (\<forall>P Q f v. Wr P Q f v \<in> set tr \<longrightarrow>
            Q = P \<and> P < length (shells primary) \<and>
            function_index (shells primary ! P) \<le> f \<and>
            f < function_index (shells primary ! P) + nfunction (shells primary ! P) \<and>
            v = diagonal_sqrt primary eri f) \<and>
         (\<forall>i\<in>{0..<length tr}. \<forall>P Q f v. tr ! i = Rd P Q f v \<longrightarrow>
            written_before tr i f \<and> f < basis_nbf primary \<and> v = diagonal_sqrt primary eri f) \<and>
         (\<forall>P\<in>{0..<length (shells primary)}. \<forall>Q\<in>{0..P}.
            shell_pair_exchange_values s ! (P * length (shells primary) + Q) =
              exchange_bound primary eri P Q \<and>
            shell_pair_exchange_values s ! (Q * length (shells primary) + P) =
              exchange_bound primary eri P Q)"
proof -
  note facts = csam_run_sqrt_facts [OF assms(1), of eri]
  note r = facts(3) [folded assms(3)]
  have fs: "function_sqrt s =
      fst (csam_run primary eri (length (shells primary)) (basis_nbf primary))"
    by (simp add: assms(2) ERISieve_function_sqrt)
  have a: "writes_of f tr = 1 \<and> function_sqrt s ! f = diagonal_sqrt primary eri f"
    if "f \<in> {0..<basis_nbf primary}" for f
    using replay_count [OF r, of f] facts(2) that by (simp add: fs table_upto_def)
  have b: "Q = P \<and> P < length (shells primary) \<and>
            function_index (shells primary ! P) \<le> f \<and>
            f < function_index (shells primary ! P) + nfunction (shells primary ! P) \<and>
            v = diagonal_sqrt primary eri f"
    if w: "Wr P Q f v \<in> set tr" for P Q f v
  proof -
    have "table_upto primary eri (basis_nbf primary) f = Some v" by (rule replay_write [OF r w])
    then have "v = diagonal_sqrt primary eri f" by (simp add: table_upto_def split: if_splits)
    moreover have "Q = P \<and> P < length (shells primary) \<and>
            function_index (shells primary ! P) \<le> f \<and>
            f < function_index (shells primary ! P) + nfunction (shells primary ! P)"
      using facts(4) [folded assms(3)] w unfolding writes_diagonal_def by blast
    ultimately show ?thesis by simp
  qed
  have c: "written_before tr i f \<and> f < basis_nbf primary \<and> v = diagonal_sqrt primary eri f"
    if "i \<in> {0..<length tr}" "tr ! i = Rd P Q f v" for i P Q f v
  proof -
    have "table_upto primary eri (basis_nbf primary) f = Some v \<and> written_before tr i f"
      using replay_read [OF r _ that(2)] that(1) by simp
    then show ?thesis by (simp add: table_upto_def split: if_splits)
  qed
  have d: "shell_pair_exchange_values s ! (P * length (shells primary) + Q) =
              exchange_bound primary eri P Q \<and>
           shell_pair_exchange_values s ! (Q * length (shells primary) + P) =
              exchange_bound primary eri P Q"
    if "P \<in> {0..<length (shells primary)}" "Q \<in> {0..P}" for P Q
    using csam_run_exchange [OF assms(1), of P Q eri] that
    by (simp add: assms(2) ERISieve_fields)
  show ?thesis using a b c d facts(1) by (simp add: fs)
qed

theorem function_sqrt_written_once_before_read_witness:
  "wf_basis example_basis \<and> csam_trace example_basis example_eri = example_trace \<and>
   function_sqrt (example (Fin 6)) = [Fin 2, Fin 3, Fin 2] \<and>
   diagonal_sqrt example_basis example_eri 0 = Fin 2 \<and>
   diagonal_sqrt example_basis example_eri 1 = Fin 3 \<and>
   diagonal_sqrt example_basis example_eri 2 = Fin 2 \<and>
   writes_of 0 (csam_trace example_basis example_eri) = 1 \<and>
   writes_of 1 (csam_trace example_basis example_eri) = 1 \<and>
   writes_of 2 (csam_trace example_basis example_eri) = 1 \<and>
   csam_trace example_basis example_eri ! 15 = Rd 1 0 2 (Fin 2) \<and>
   written_before (csam_trace example_basis example_eri) 15 2 \<and>
   shell_pair_exchange_values (example (Fin 6)) = [Fin 1, Fin (1 / 2), Fin (1 / 2), Fin 1] \<and>
   exchange_bound example_basis example_eri 1 0 = Fin (1 / 2) \<and>
   shell_pair_exchange_values (example (Fin 6)) ! (1 * length (shells example_basis) + 0) =
     exchange_bound example_basis example_eri 1 0"
proof -
  have t: "csam_trace example_basis example_eri = example_trace"
    by (simp add: csam_trace_def example_dims example_csam)
  have e: "example_trace ! 15 = Rd 1 0 2 (Fin 2)" "(15::nat) \<in> {0..<length example_trace}"
    by (simp_all add: example_trace_def)
  note T = function_sqrt_written_once_before_read [OF example_wf example_def t [symmetric], of "Fin 6"]
  have w: "writes_of 0 example_trace = 1" "writes_of 1 example_trace = 1"
      "writes_of 2 example_trace = 1"
    using T by (simp_all add: example_dims)
  have r: "written_before example_trace 15 2" using T e by blast
  have x: "shell_pair_exchange_values (example (Fin 6)) ! (1 * length (shells example_basis) + 0) =
     exchange_bound example_basis example_eri 1 0"
  proof -
    have "\<forall>P\<in>{0..<length (shells example_basis)}. \<forall>Q\<in>{0..P}.
            shell_pair_exchange_values (example (Fin 6)) ! (P * length (shells example_basis) + Q) =
              exchange_bound example_basis example_eri P Q"
      using T by blast
    from this [rule_format, of 1 0] show ?thesis by (simp add: example_dims)
  qed
  show ?thesis
    using w r x e(1) example_diagonal_sqrt example_exchange_bound(2)
    by (simp add: example_wf t example_sqrt example_fields)
qed

text \<open>
  Claim C10. After construction on a well-formed basis (contiguous function ranges,
  ascending with the shell index) and any \<^verbatim>\<open>set_sieve\<close>, a canonical function pair
  \<open>(p, q)\<close> with \<open>q \<le> p < nbf\<close> is in the function-pair list exactly when the pair of
  the shells that own \<open>p\<close> and \<open>q\<close> is in the shell-pair list.
\<close>

theorem function_pair_iff_shell_pair:
  assumes "wf_basis primary" and "s = set_sieve sv' (ERISieve primary sv csam eri)"
    and "p < nbf s" and "q \<le> p"
  shows "(p, q) \<in> set (function_pairs s) \<longleftrightarrow>
         (shell_of primary p, shell_of primary q) \<in> set (shell_pairs s)"
proof -
  define n where "n = length (shells primary)"
  define m where "m = basis_nbf primary"
  define D where "D = fst (snd (schwarz_run primary eri))"
  define F where "F = snd (snd (schwarz_run primary eri))"
  define A where "A = shell_of primary p"
  define B where "B = shell_of primary q"
  define a where "a = p - function_index (shells primary ! A)"
  define b where "b = q - function_index (shells primary ! B)"
  have s: "s = ERISieve primary sv' csam eri" by (simp add: assms(2) set_sieve_ERISieve)
  have pm: "p < m" "q < m" using assms(3,4) by (simp_all add: s ERISieve_fields m_def)
  note rA = shell_of_range [OF assms(1) pm(1) [unfolded m_def], folded A_def]
  note rB = shell_of_range [OF assms(1) pm(2) [unfolded m_def], folded B_def]
  have p: "p = function_index (shells primary ! A) + a" and a: "a < nfunction (shells primary ! A)"
    using rA by (simp_all add: a_def)
  have q: "q = function_index (shells primary ! B) + b" and b: "b < nfunction (shells primary ! B)"
    using rB by (simp_all add: b_def)
  have BA: "B \<le> A"
    using wf_order [OF assms(1) rA(1) rB(1) a, of b] assms(4) p q by simp
  have "block_replicated primary D F"
    unfolding D_def F_def by (rule schwarz_run_facts [OF assms(1)])
  then have FD: "F ! (p * m + q) = D ! (A * n + B)"
    unfolding block_replicated_def using rA(1) rB(1) a b p q by (simp add: m_def n_def)
  have "(p, q) \<in> set (function_pairs s) \<longleftrightarrow>
        dge (F ! (p * m + q)) (ddiv (dmul sv' sv') (fst (schwarz_run primary eri)))"
    using pm assms(4)
    by (simp add: s ERISieve_built set_sieve_lists built_fields set_tri significant_def
             flip: m_def F_def)
  moreover have "(A, B) \<in> set (shell_pairs s) \<longleftrightarrow>
        dge (D ! (A * n + B)) (ddiv (dmul sv' sv') (fst (schwarz_run primary eri)))"
    using BA rA(1)
    by (simp add: s ERISieve_built set_sieve_lists built_fields set_tri significant_def
             flip: n_def D_def)
  ultimately show ?thesis using FD by (simp add: A_def B_def)
qed

theorem function_pair_iff_shell_pair_witness:
  "wf_basis example_basis \<and> nbf (example (Fin 6)) = 3 \<and>
   shell_of example_basis 2 = 1 \<and> shell_of example_basis 0 = 0 \<and>
   function_pairs (example (Fin 6)) = [(0, 0), (1, 1), (2, 1), (2, 2)] \<and>
   shell_pairs (example (Fin 6)) = [(0, 0), (1, 1)] \<and>
   ((2, 0) \<in> set (function_pairs (example (Fin 6))) \<longleftrightarrow>
    (1, 0) \<in> set (shell_pairs (example (Fin 6))))"
proof -
  have s: "example (Fin 6) = set_sieve (Fin 6) (ERISieve example_basis (Fin 2) True example_eri)"
    by (simp add: example_def set_sieve_ERISieve)
  have "(2, 0) \<in> set (function_pairs (example (Fin 6))) \<longleftrightarrow>
        (shell_of example_basis 2, shell_of example_basis 0) \<in> set (shell_pairs (example (Fin 6)))"
    by (rule function_pair_iff_shell_pair [OF example_wf s]) (simp_all add: example_fields)
  then show ?thesis
    by (simp add: example_wf example_fields example_shell_of example_at_6)
qed

end
